theory Spec2Isabelle
  imports Main
begin

section \<open>Python lists and grids\<close>

text \<open>
  The three scripts work on a grid given as a Python list of lists. Coordinates are
  Python integers, so they are modelled as \<open>int\<close>; a subscript \<open>xs[i]\<close> with a negative
  \<open>i\<close> counts from the end of the list and a subscript outside the list raises
  \<open>IndexError\<close>. \<open>chr\<close> raises \<open>ValueError\<close> outside the range of code points.
  Rows are modelled as values: two rows of a grid are never the same list object.
\<close>

datatype py_error = IndexError | ValueError | KeyError

text \<open>The position a subscript \<open>i\<close> denotes in a list of \<open>n\<close> elements, if any.\<close>

definition py_index :: "nat \<Rightarrow> int \<Rightarrow> nat option" where
  "py_index n i =
     (if 0 \<le> i \<and> i < int n then Some (nat i)
      else if - int n \<le> i \<and> i < 0 then Some (nat (int n + i))
      else None)"

definition py_get :: "'a list \<Rightarrow> int \<Rightarrow> py_error + 'a" where
  "py_get xs i =
     (case py_index (length xs) i of None \<Rightarrow> Inl IndexError | Some k \<Rightarrow> Inr (xs ! k))"

definition py_set :: "'a list \<Rightarrow> int \<Rightarrow> 'a \<Rightarrow> py_error + 'a list" where
  "py_set xs i v =
     (case py_index (length xs) i of None \<Rightarrow> Inl IndexError | Some k \<Rightarrow> Inr (xs[k := v]))"

text \<open>\<open>m[r][c]\<close> and \<open>m[r][c] = v\<close>. The assignment changes the row \<open>m[r]\<close> in place; the model
  gives the grid with row \<open>r\<close> replaced, which is the same for a grid whose rows are distinct
  list objects. A row object that stands at several row indices would change at all of them.\<close>

definition get_cell :: "'a list list \<Rightarrow> int \<Rightarrow> int \<Rightarrow> py_error + 'a" where
  "get_cell m r c = (case py_get m r of Inl e \<Rightarrow> Inl e | Inr row \<Rightarrow> py_get row c)"

definition set_cell :: "'a list list \<Rightarrow> int \<Rightarrow> int \<Rightarrow> 'a \<Rightarrow> py_error + 'a list list" where
  "set_cell m r c v =
     (case py_get m r of
        Inl e \<Rightarrow> Inl e
      | Inr row \<Rightarrow>
          (case py_set row c v of
             Inl e \<Rightarrow> Inl e
           | Inr row' \<Rightarrow> py_set m r row'))"

text \<open>\<open>len(matrix)\<close> and \<open>len(matrix[0]) if rows > 0 else 0\<close>, as every constructor computes them.\<close>

definition len_rows :: "'a list list \<Rightarrow> int" where
  "len_rows m = int (length m)"

definition len_cols :: "'a list list \<Rightarrow> int" where
  "len_cols m = (if len_rows m > 0 then int (length (m ! 0)) else 0)"

section \<open>Flood fill (filling_algorithm.py)\<close>

record 'a FloodFillProblem =
  initial :: "int \<times> int"
  matrix :: "'a list list"
  rows :: int
  cols :: int
  target_color :: 'a
  replacement_color :: 'a

definition FloodFillProblem_init ::
  "'a list list \<Rightarrow> int \<times> int \<Rightarrow> 'a \<Rightarrow> 'a \<Rightarrow> 'a FloodFillProblem" where
  "FloodFillProblem_init m start t rep =
     \<lparr>initial = start, matrix = m, rows = len_rows m, cols = len_cols m,
      target_color = t, replacement_color = rep\<rparr>"

definition deltas4 :: "(int \<times> int) list" where
  "deltas4 = [(0, 1), (0, -1), (1, 0), (-1, 0)]"

text \<open>The body of \<open>FloodFillProblem.actions\<close>: the loop over the remaining deltas, with the
  list \<open>neighbors\<close> built so far.\<close>

fun FloodFillProblem_actions_loop ::
  "'a FloodFillProblem \<Rightarrow> int \<times> int \<Rightarrow> (int \<times> int) list \<Rightarrow> (int \<times> int) list
     \<Rightarrow> py_error + (int \<times> int) list" where
  "FloodFillProblem_actions_loop p (r, c) [] neighbors = Inr neighbors"
| "FloodFillProblem_actions_loop p (r, c) ((dr, dc) # ds) neighbors =
     (let nr = r + dr; nc = c + dc in
      if 0 \<le> nr \<and> nr < rows p \<and> 0 \<le> nc \<and> nc < cols p then
        (case get_cell (matrix p) nr nc of
           Inl e \<Rightarrow> Inl e
         | Inr v \<Rightarrow>
             if v = target_color p
             then FloodFillProblem_actions_loop p (r, c) ds (neighbors @ [(nr, nc)])
             else FloodFillProblem_actions_loop p (r, c) ds neighbors)
      else FloodFillProblem_actions_loop p (r, c) ds neighbors)"

definition FloodFillProblem_actions ::
  "'a FloodFillProblem \<Rightarrow> int \<times> int \<Rightarrow> py_error + (int \<times> int) list" where
  "FloodFillProblem_actions p state = FloodFillProblem_actions_loop p state deltas4 []"

text \<open>\<open>FloodFillProblem.result\<close> paints the cell \<open>action\<close> and returns it; the painted
  matrix is returned with it.\<close>

definition FloodFillProblem_result ::
  "'a FloodFillProblem \<Rightarrow> int \<times> int \<Rightarrow> int \<times> int
     \<Rightarrow> py_error + ('a FloodFillProblem \<times> (int \<times> int))" where
  "FloodFillProblem_result p state action =
     (case action of (nr, nc) \<Rightarrow>
        (case set_cell (matrix p) nr nc (replacement_color p) of
           Inl e \<Rightarrow> Inl e
         | Inr m' \<Rightarrow> Inr (p\<lparr>matrix := m'\<rparr>, action)))"

text \<open>The inner \<open>for\<close> loop of \<open>flood_fill_dfs\<close>: every neighbour that \<open>actions\<close> returned is
  painted and pushed. The stack is a list whose head is the top: \<open>append\<close> is \<open>#\<close> and
  \<open>pop\<close> takes the head.\<close>

fun flood_fill_push ::
  "'a FloodFillProblem \<Rightarrow> int \<times> int \<Rightarrow> (int \<times> int) list \<Rightarrow> (int \<times> int) list
     \<Rightarrow> py_error + ('a FloodFillProblem \<times> (int \<times> int) list)" where
  "flood_fill_push p cur [] stack = Inr (p, stack)"
| "flood_fill_push p cur ((nr, nc) # ns) stack =
     (case FloodFillProblem_result p cur (nr, nc) of
        Inl e \<Rightarrow> Inl e
      | Inr (p', a) \<Rightarrow> flood_fill_push p' cur ns ((nr, nc) # stack))"

text \<open>The \<open>while stack\<close> loop. It need not terminate, so not returning is the value \<open>None\<close>.\<close>

partial_function (option) flood_fill_while ::
  "'a FloodFillProblem \<Rightarrow> (int \<times> int) list \<Rightarrow> (py_error + 'a FloodFillProblem) option" where
  "flood_fill_while p stack =
     (case stack of
        [] \<Rightarrow> Some (Inr p)
      | (cr, cc) # rest \<Rightarrow>
          (case FloodFillProblem_actions p (cr, cc) of
             Inl e \<Rightarrow> Some (Inl e)
           | Inr ns \<Rightarrow>
               (case flood_fill_push p (cr, cc) ns rest of
                  Inl e \<Rightarrow> Some (Inl e)
                | Inr (p', stack') \<Rightarrow> flood_fill_while p' stack')))"

declare flood_fill_while.simps [code]

text \<open>\<open>flood_fill_dfs\<close> returns nothing; its effect is the painted matrix of the problem,
  which the model returns.\<close>

definition flood_fill_dfs ::
  "'a FloodFillProblem \<Rightarrow> (py_error + 'a FloodFillProblem) option" where
  "flood_fill_dfs p =
     (case initial p of (r, c) \<Rightarrow>
        (case get_cell (matrix p) r c of
           Inl e \<Rightarrow> Some (Inl e)
         | Inr v \<Rightarrow>
             if v \<noteq> target_color p then Some (Inr p)
             else
               (case set_cell (matrix p) r c (replacement_color p) of
                  Inl e \<Rightarrow> Some (Inl e)
                | Inr m' \<Rightarrow> flood_fill_while (p\<lparr>matrix := m'\<rparr>) [(r, c)])))"

section \<open>Flood fill: grids, regions and the loop invariant\<close>

text \<open>
  A grid is rectangular when all its rows have the length of the first one. A cell is in
  the grid when its row and column are in \<open>[0, rows)\<close> and \<open>[0, cols)\<close>. Two cells are
  4-adjacent when they differ by one step along one axis. \<open>reachable4 m t s x\<close> says that
  \<open>x\<close> is reached from the start \<open>s\<close> by 4-adjacent steps through cells of \<open>m\<close> that hold
  the colour \<open>t\<close> (\<open>s\<close> and \<open>x\<close> included).
\<close>

definition rectangular :: "'a list list \<Rightarrow> bool" where
  "rectangular m = (\<forall>row \<in> set m. length row = length (m ! 0))"

fun in_grid :: "'a list list \<Rightarrow> int \<times> int \<Rightarrow> bool" where
  "in_grid m (r, c) = (0 \<le> r \<and> r < len_rows m \<and> 0 \<le> c \<and> c < len_cols m)"

fun cell_at :: "'a list list \<Rightarrow> int \<times> int \<Rightarrow> 'a" where
  "cell_at m (r, c) = m ! nat r ! nat c"

fun adjacent4 :: "int \<times> int \<Rightarrow> int \<times> int \<Rightarrow> bool" where
  "adjacent4 (r, c) (r', c') = (\<bar>r - r'\<bar> + \<bar>c - c'\<bar> = 1)"

inductive reachable4 :: "'a list list \<Rightarrow> 'a \<Rightarrow> int \<times> int \<Rightarrow> int \<times> int \<Rightarrow> bool"
  for m :: "'a list list" and t :: 'a and s :: "int \<times> int" where
  start: "in_grid m s \<Longrightarrow> cell_at m s = t \<Longrightarrow> reachable4 m t s s"
| step: "reachable4 m t s u \<Longrightarrow> adjacent4 u v \<Longrightarrow> in_grid m v \<Longrightarrow> cell_at m v = t
         \<Longrightarrow> reachable4 m t s v"

text \<open>\<open>paint m x v\<close> is the grid after \<open>m[r][c] = v\<close> for a cell \<open>x = (r, c)\<close> in the grid;
  \<open>neighbors4 x\<close> are the four coordinates that \<open>actions\<close> examines around \<open>x\<close>.\<close>

fun paint :: "'a list list \<Rightarrow> int \<times> int \<Rightarrow> 'a \<Rightarrow> 'a list list" where
  "paint m (r, c) v = m[nat r := (m ! nat r)[nat c := v]]"

definition neighbors4 :: "int \<times> int \<Rightarrow> (int \<times> int) list" where
  "neighbors4 x = map (\<lambda>d. (fst x + fst d, snd x + snd d)) deltas4"

text \<open>The fields \<open>rows\<close> and \<open>cols\<close> are those of a rectangular matrix, as the constructor sets
  them.\<close>

definition wf_problem :: "'a FloodFillProblem \<Rightarrow> bool" where
  "wf_problem p = (rectangular (matrix p) \<and> rows p = len_rows (matrix p) \<and> cols p = len_cols (matrix p))"

fun paint_all :: "'a list list \<Rightarrow> (int \<times> int) list \<Rightarrow> 'a \<Rightarrow> 'a list list" where
  "paint_all m [] v = m"
| "paint_all m (y # ys) v = paint_all (paint m y v) ys v"

text \<open>The cells that hold the colour \<open>t\<close>; their number decreases with every paint when the
  replacement colour differs from \<open>t\<close>.\<close>

definition tcells :: "'a list list \<Rightarrow> 'a \<Rightarrow> (int \<times> int) set" where
  "tcells m t = {x. in_grid m x \<and> cell_at m x = t}"

text \<open>
  The invariant of the \<open>while\<close> loop, for the original matrix \<open>m0\<close>, the current matrix \<open>m\<close>
  and the stack: the shape is unchanged; a cell either holds what it held or has been
  painted and is reachable; every cell on the stack has been painted; every painted cell
  that is not on the stack has no neighbour left with the target colour; the start cell
  has been painted.
\<close>

definition ff_inv ::
  "'a list list \<Rightarrow> 'a \<Rightarrow> 'a \<Rightarrow> int \<times> int \<Rightarrow> 'a list list \<Rightarrow> (int \<times> int) list \<Rightarrow> bool" where
  "ff_inv m0 t rep s m stack \<longleftrightarrow>
     map length m = map length m0 \<and>
     (\<forall>x. in_grid m0 x \<longrightarrow> cell_at m x = cell_at m0 x \<or> (cell_at m x = rep \<and> reachable4 m0 t s x)) \<and>
     (\<forall>x \<in> set stack. in_grid m0 x \<and> cell_at m x \<noteq> cell_at m0 x) \<and>
     (\<forall>x. in_grid m0 x \<and> cell_at m x \<noteq> cell_at m0 x \<and> x \<notin> set stack \<longrightarrow>
        (\<forall>y. adjacent4 x y \<and> in_grid m0 y \<longrightarrow> cell_at m y \<noteq> t)) \<and>
     in_grid m0 s \<and> cell_at m s \<noteq> cell_at m0 s"

text \<open>A state from which the loop cannot end when the two colours are equal: every cell on
  the (non-empty) stack holds the target colour and has a neighbour that holds it.\<close>

definition ff_stuck :: "'a FloodFillProblem \<Rightarrow> (int \<times> int) list \<Rightarrow> bool" where
  "ff_stuck p stack \<longleftrightarrow>
     wf_problem p \<and> target_color p = replacement_color p \<and> stack \<noteq> [] \<and>
     (\<forall>x \<in> set stack. in_grid (matrix p) x \<and> cell_at (matrix p) x = target_color p \<and>
        (\<exists>y. adjacent4 x y \<and> in_grid (matrix p) y \<and> cell_at (matrix p) y = target_color p))"

section \<open>Flood fill: the guard on the start cell\<close>

text \<open>
  Claim C8. If the start cell is read and its colour is not the target colour, then
  \<open>flood_fill_dfs\<close> returns at once and the problem, with its matrix, is what it was:
  every cell is unchanged. This covers a start cell that already has the replacement
  colour and one of an unrelated colour.
\<close>

theorem flood_fill_dfs_start_not_target:
  assumes "initial p = (r, c)"
    and "get_cell (matrix p) r c = Inr v"
    and "v \<noteq> target_color p"
  shows "flood_fill_dfs p = Some (Inr p)"
  using assms by (simp add: flood_fill_dfs_def)

text \<open>The start cell \<open>(0, 1)\<close> of the grid \<open>[["X", "C"]]\<close> already has the replacement
  colour \<open>"C"\<close>.\<close>

theorem flood_fill_dfs_start_not_target_witness:
  "initial (FloodFillProblem_init [[''X'', ''C'']] (0, 1) ''X'' ''C'') = (0, 1)
   \<and> get_cell (matrix (FloodFillProblem_init [[''X'', ''C'']] (0, 1) ''X'' ''C'')) 0 1 = Inr ''C''
   \<and> ''C'' \<noteq> target_color (FloodFillProblem_init [[''X'', ''C'']] (0, 1) ''X'' ''C'')
   \<and> flood_fill_dfs (FloodFillProblem_init [[''X'', ''C'']] (0, 1) ''X'' ''C'')
       = Some (Inr (FloodFillProblem_init [[''X'', ''C'']] (0, 1) ''X'' ''C''))"
  using flood_fill_dfs_start_not_target
    [of "FloodFillProblem_init [[''X'', ''C'']] (0, 1) ''X'' ''C''" 0 1 "''C''"]
  by (simp add: FloodFillProblem_init_def get_cell_def py_get_def py_index_def)

section \<open>Flood fill: the model on rectangular grids\<close>

lemma py_index_in: "0 \<le> i \<Longrightarrow> i < int n \<Longrightarrow> py_index n i = Some (nat i)"
  by (simp add: py_index_def)

lemma rectangular_row: "rectangular m \<Longrightarrow> i < length m \<Longrightarrow> length (m ! i) = length (m ! 0)"
  by (simp add: rectangular_def)

lemma in_grid_row:
  assumes "rectangular m" and "in_grid m (r, c)"
  shows "nat r < length m \<and> nat c < length (m ! nat r)"
proof -
  from assms(2) have r: "nat r < length m" by (auto simp: len_rows_def nat_less_iff)
  then have "len_cols m = int (length (m ! 0))" by (auto simp: len_cols_def len_rows_def)
  with assms(2) have "nat c < length (m ! 0)" by (auto simp: nat_less_iff)
  with r rectangular_row[OF assms(1) r] show ?thesis by simp
qed

lemma get_cell_in_grid:
  "rectangular m \<Longrightarrow> in_grid m x \<Longrightarrow> get_cell m (fst x) (snd x) = Inr (cell_at m x)"
proof (cases x)
  case (Pair r c)
  assume a: "rectangular m" "in_grid m x"
  from in_grid_row[OF a(1), of r c] a(2) Pair
  have "nat r < length m" "nat c < length (m ! nat r)" by auto
  moreover from a(2) Pair have "0 \<le> r" "0 \<le> c" by auto
  ultimately show ?thesis using Pair
    by (simp add: get_cell_def py_get_def py_index_in)
qed

lemma set_cell_in_grid:
  "rectangular m \<Longrightarrow> in_grid m x \<Longrightarrow> set_cell m (fst x) (snd x) v = Inr (paint m x v)"
proof (cases x)
  case (Pair r c)
  assume a: "rectangular m" "in_grid m x"
  from in_grid_row[OF a(1), of r c] a(2) Pair
  have "nat r < length m" "nat c < length (m ! nat r)" by auto
  moreover from a(2) Pair have "0 \<le> r" "0 \<le> c" by auto
  ultimately show ?thesis using Pair
    by (simp add: set_cell_def py_get_def py_set_def py_index_in)
qed

lemma map_length_paint: "map length (paint m x v) = map length m"
proof (cases x)
  case (Pair r c)
  have "(map length m)[nat r := length (m ! nat r)] = map length m"
    by (cases "nat r < length m") (simp_all add: list_update_same_conv list_update_beyond)
  then show ?thesis using Pair by (simp add: map_update)
qed

lemma len_rows_shape: "map length m' = map length m \<Longrightarrow> len_rows m' = len_rows m"
  using map_eq_imp_length_eq[of length m' length m] by (simp add: len_rows_def)

lemma len_cols_shape: "map length m' = map length m \<Longrightarrow> len_cols m' = len_cols m"
proof -
  assume a: "map length m' = map length m"
  then have l: "length m' = length m" by (rule map_eq_imp_length_eq)
  show ?thesis
  proof (cases "m = []")
    case True
    with l show ?thesis by (simp add: len_cols_def len_rows_def)
  next
    case False
    with l have "0 < length m" "0 < length m'" by auto
    then have "length (m' ! 0) = map length m' ! 0" "length (m ! 0) = map length m ! 0" by simp_all
    with a have "length (m' ! 0) = length (m ! 0)" by simp
    with l show ?thesis by (simp add: len_cols_def len_rows_def)
  qed
qed

lemma rectangular_alt: "rectangular m = (\<forall>n \<in> set (map length m). n = map length m ! 0)"
proof (cases "m = []")
  case True
  then show ?thesis by (simp add: rectangular_def)
next
  case False
  then have "map length m ! 0 = length (m ! 0)" by simp
  then show ?thesis by (auto simp: rectangular_def)
qed

lemma rectangular_shape: "map length m' = map length m \<Longrightarrow> rectangular m' = rectangular m"
  by (simp only: rectangular_alt)

lemma in_grid_shape: "map length m' = map length m \<Longrightarrow> in_grid m' x = in_grid m x"
  using len_rows_shape[of m' m] len_cols_shape[of m' m] by (cases x) simp

lemma cell_at_paint:
  assumes "rectangular m" and "in_grid m x" and "in_grid m y"
  shows "cell_at (paint m x v) y = (if y = x then v else cell_at m y)"
proof -
  obtain r c where x: "x = (r, c)" by (cases x)
  obtain r' c' where y: "y = (r', c')" by (cases y)
  from in_grid_row[OF assms(1), of r c] assms(2) x
  have rx: "nat r < length m" "nat c < length (m ! nat r)" by auto
  from in_grid_row[OF assms(1), of r' c'] assms(3) y
  have ry: "nat r' < length m" "nat c' < length (m ! nat r')" by auto
  from assms(2,3) x y have nn: "0 \<le> r" "0 \<le> c" "0 \<le> r'" "0 \<le> c'" by auto
  show ?thesis
  proof (cases "r' = r")
    case True
    with rx ry nn show ?thesis unfolding x y
      by (auto simp: nth_list_update)
  next
    case False
    with nn have "nat r' \<noteq> nat r" by auto
    with rx ry False show ?thesis unfolding x y by simp
  qed
qed

lemma set_neighbors4: "set (neighbors4 x) = {y. adjacent4 x y}"
proof -
  obtain r c where x: "x = (r, c)" by (cases x)
  have "(a, b) \<in> set (neighbors4 (r, c)) \<longleftrightarrow> adjacent4 (r, c) (a, b)" for a b
    by (auto simp: neighbors4_def deltas4_def)
  then show ?thesis unfolding x by auto
qed

lemma length_neighbors4: "length (neighbors4 x) = 4"
  by (simp add: neighbors4_def deltas4_def)

lemma adjacent4_sym: "adjacent4 x y \<Longrightarrow> adjacent4 y x"
  by (cases x; cases y) auto

lemma actions_loop_wf:
  assumes "wf_problem p"
  shows "FloodFillProblem_actions_loop p x ds acc =
    Inr (acc @ filter (\<lambda>y. in_grid (matrix p) y \<and> cell_at (matrix p) y = target_color p)
                 (map (\<lambda>d. (fst x + fst d, snd x + snd d)) ds))"
proof (induction ds arbitrary: acc)
  case Nil
  show ?case by (cases x) simp
next
  case (Cons d ds)
  obtain r c where x: "x = (r, c)" by (cases x)
  obtain dr dc where d: "d = (dr, dc)" by (cases d)
  from assms have rect: "rectangular (matrix p)" and rc: "rows p = len_rows (matrix p)" "cols p = len_cols (matrix p)"
    by (simp_all add: wf_problem_def)
  show ?case
  proof (cases "in_grid (matrix p) (r + dr, c + dc)")
    case True
    from get_cell_in_grid[OF rect True]
    have "get_cell (matrix p) (r + dr) (c + dc) = Inr (cell_at (matrix p) (r + dr, c + dc))" by simp
    with True Cons.IH show ?thesis unfolding x d
      by (simp add: rc Let_def del: cell_at.simps)
  next
    case False
    with Cons.IH show ?thesis unfolding x d
      by (auto simp: rc Let_def simp del: cell_at.simps)
  qed
qed

lemma actions_wf:
  "wf_problem p \<Longrightarrow> FloodFillProblem_actions p x =
     Inr (filter (\<lambda>y. in_grid (matrix p) y \<and> cell_at (matrix p) y = target_color p) (neighbors4 x))"
  by (simp add: FloodFillProblem_actions_def actions_loop_wf neighbors4_def)

lemma map_length_paint_all: "map length (paint_all m ys v) = map length m"
  by (induction ys arbitrary: m) (simp_all add: map_length_paint del: paint.simps)

lemma cell_at_paint_all:
  "rectangular m \<Longrightarrow> \<forall>y \<in> set ys. in_grid m y \<Longrightarrow> in_grid m x \<Longrightarrow>
     cell_at (paint_all m ys v) x = (if x \<in> set ys then v else cell_at m x)"
proof (induction ys arbitrary: m)
  case Nil
  then show ?case by simp
next
  case (Cons y ys)
  have sh: "map length (paint m y v) = map length m" by (rule map_length_paint)
  from Cons.prems have 1: "rectangular (paint m y v)" by (simp only: rectangular_shape[OF sh])
  from Cons.prems have 2: "\<forall>z \<in> set ys. in_grid (paint m y v) z" by (simp add: in_grid_shape[OF sh])
  from Cons.prems have 3: "in_grid (paint m y v) x" by (simp only: in_grid_shape[OF sh])
  from Cons.prems have "in_grid m y" by simp
  from cell_at_paint[OF Cons.prems(1) this Cons.prems(3)] Cons.IH[OF 1 2 3]
  show ?case by (auto simp del: paint.simps)
qed

lemma push_wf:
  "wf_problem p \<Longrightarrow> \<forall>y \<in> set ns. in_grid (matrix p) y \<Longrightarrow>
     flood_fill_push p cur ns stack =
       Inr (p\<lparr>matrix := paint_all (matrix p) ns (replacement_color p)\<rparr>, rev ns @ stack)"
proof (induction ns arbitrary: p stack)
  case Nil
  then show ?case by simp
next
  case (Cons y ns)
  obtain r c where y: "y = (r, c)" by (cases y)
  let ?m = "paint (matrix p) y (replacement_color p)"
  let ?p = "p\<lparr>matrix := ?m\<rparr>"
  have sh: "map length ?m = map length (matrix p)" by (rule map_length_paint)
  from Cons.prems(1) have rect: "rectangular (matrix p)" by (simp add: wf_problem_def)
  from Cons.prems(2) have iny: "in_grid (matrix p) y" by simp
  from Cons.prems(1) have 1: "wf_problem ?p"
    unfolding wf_problem_def using rectangular_shape[OF sh] len_rows_shape[OF sh] len_cols_shape[OF sh] 
    by (simp del: paint.simps)
  from Cons.prems(2) have 2: "\<forall>z \<in> set ns. in_grid (matrix ?p) z" 
    using in_grid_shape[OF sh] by (simp del: paint.simps)
  from set_cell_in_grid[OF rect iny, of "replacement_color p"]
  have "FloodFillProblem_result p cur (r, c) = Inr (?p, (r, c))"
    unfolding y by (simp add: FloodFillProblem_result_def del: paint.simps)
  with Cons.IH[OF 1 2, of "y # stack"] show ?case unfolding y
    by (simp del: paint.simps)
qed

declare in_grid.simps [simp del] cell_at.simps [simp del] adjacent4.simps [simp del]
  paint.simps [simp del]

lemma finite_in_grid: "finite {x. in_grid m x}"
proof -
  have "{x. in_grid m x} \<subseteq> {0..<len_rows m} \<times> {0..<len_cols m}"
    by (auto simp: in_grid.simps)
  then show ?thesis by (rule finite_subset) simp
qed

lemma finite_tcells: "finite (tcells m t)"
  by (rule finite_subset[OF _ finite_in_grid[of m]]) (auto simp: tcells_def)

lemma ff_inv_shape: "ff_inv m0 t rep s m stack \<Longrightarrow> map length m = map length m0"
  by (simp add: ff_inv_def)

lemma ff_inv_cell:
  "ff_inv m0 t rep s m stack \<Longrightarrow> in_grid m0 x \<Longrightarrow>
     cell_at m x = cell_at m0 x \<or> (cell_at m x = rep \<and> reachable4 m0 t s x)"
  unfolding ff_inv_def by blast

lemma ff_inv_stack:
  "ff_inv m0 t rep s m stack \<Longrightarrow> x \<in> set stack \<Longrightarrow> in_grid m0 x \<and> cell_at m x \<noteq> cell_at m0 x"
  unfolding ff_inv_def by blast

lemma ff_inv_closed:
  "ff_inv m0 t rep s m stack \<Longrightarrow> in_grid m0 x \<Longrightarrow> cell_at m x \<noteq> cell_at m0 x \<Longrightarrow>
     x \<notin> set stack \<Longrightarrow> adjacent4 x y \<Longrightarrow> in_grid m0 y \<Longrightarrow> cell_at m y \<noteq> t"
  unfolding ff_inv_def by blast

lemma ff_inv_start: "ff_inv m0 t rep s m stack \<Longrightarrow> in_grid m0 s \<and> cell_at m s \<noteq> cell_at m0 s"
  unfolding ff_inv_def by blast

lemma reachable4_in_grid: "reachable4 m t s x \<Longrightarrow> in_grid m x \<and> cell_at m x = t"
  by (induction rule: reachable4.induct) auto

lemma reachable4_start_target: "reachable4 m t s x \<Longrightarrow> cell_at m s = t"
  by (induction rule: reachable4.induct) auto

lemma ff_inv_final:
  assumes inv: "ff_inv m0 t rep s m []" and x: "in_grid m0 x"
  shows "cell_at m x = (if reachable4 m0 t s x then rep else cell_at m0 x)"
proof -
  have painted: "reachable4 m0 t s y \<Longrightarrow> cell_at m y \<noteq> cell_at m0 y" for y
  proof (induction rule: reachable4.induct)
    case start
    from ff_inv_start[OF inv] show ?case by simp
  next
    case (step u v)
    from step.hyps(1) have "in_grid m0 u" by (simp add: reachable4_in_grid)
    from ff_inv_closed[OF inv this step.IH _ step.hyps(2,3)] have "cell_at m v \<noteq> t" by simp
    with step.hyps(4) show ?case by simp
  qed
  from ff_inv_cell[OF inv x] painted[of x] show ?thesis by auto
qed

lemma ff_inv_init:
  assumes rect: "rectangular m0" and s: "in_grid m0 s" and t: "cell_at m0 s = t" and ne: "t \<noteq> rep"
  shows "ff_inv m0 t rep s (paint m0 s rep) [s]"
proof -
  have c: "in_grid m0 x \<Longrightarrow> cell_at (paint m0 s rep) x = (if x = s then rep else cell_at m0 x)" for x
    using cell_at_paint[OF rect s] by simp
  have r: "reachable4 m0 t s s" using s t by (rule reachable4.start)
  show ?thesis unfolding ff_inv_def
    using c r s t ne by (auto simp: map_length_paint)
qed

lemma ff_inv_step:
  assumes rect: "rectangular m0" and ne: "t \<noteq> rep"
    and inv: "ff_inv m0 t rep s m (u # rest)"
  defines "ns \<equiv> filter (\<lambda>y. in_grid m y \<and> cell_at m y = t) (neighbors4 u)"
  shows "ff_inv m0 t rep s (paint_all m ns rep) (rev ns @ rest)"
    and "tcells (paint_all m ns rep) t = tcells m t - set ns"
    and "set ns \<subseteq> tcells m t"
proof -
  let ?m' = "paint_all m ns rep"
  note sh = ff_inv_shape[OF inv]
  have g: "in_grid m x = in_grid m0 x" for x by (rule in_grid_shape[OF sh])
  have rm: "rectangular m" using rect rectangular_shape[OF sh] by simp
  have sh': "map length ?m' = map length m0" using sh by (simp add: map_length_paint_all)
  have g': "in_grid ?m' x = in_grid m0 x" for x by (rule in_grid_shape[OF sh'])
  have nsin: "\<forall>y \<in> set ns. in_grid m y" by (simp add: ns_def)
  have c: "cell_at ?m' x = (if x \<in> set ns then rep else cell_at m x)" if "in_grid m0 x" for x
    using cell_at_paint_all[OF rm nsin, of x rep] g that by simp
  have nsd: "x \<in> set ns \<longleftrightarrow> adjacent4 u x \<and> in_grid m0 x \<and> cell_at m x = t" for x
    by (auto simp: ns_def set_neighbors4 g)
  note I2 = ff_inv_cell[OF inv] and I3 = ff_inv_stack[OF inv] and I4 = ff_inv_closed[OF inv]
    and I5 = ff_inv_start[OF inv]
  have ureach: "reachable4 m0 t s u" using I3[of u] I2[of u] by auto
  have ns0: "cell_at m0 x = t \<and> reachable4 m0 t s x" if a: "x \<in> set ns" for x
  proof -
    from a have x: "adjacent4 u x" "in_grid m0 x" "cell_at m x = t" by (simp_all add: nsd)
    with I2[of x] ne have "cell_at m0 x = t" by auto
    with x ureach show ?thesis by (auto intro: reachable4.step)
  qed
  have J2: "cell_at ?m' x = cell_at m0 x \<or> (cell_at ?m' x = rep \<and> reachable4 m0 t s x)"
    if "in_grid m0 x" for x
    using c[OF that] ns0[of x] I2[OF that] by auto
  have J3: "in_grid m0 x \<and> cell_at ?m' x \<noteq> cell_at m0 x" if a: "x \<in> set (rev ns @ rest)" for x
  proof (cases "x \<in> set ns")
    case True
    then have i: "in_grid m0 x" by (simp add: nsd)
    from c[OF i] True ns0[OF True] ne i show ?thesis by auto
  next
    case False
    with a have "x \<in> set (u # rest)" by simp
    from I3[OF this] have i: "in_grid m0 x" "cell_at m x \<noteq> cell_at m0 x" by simp_all
    with c[OF i(1)] False show ?thesis by simp
  qed
  have J4: "cell_at ?m' y \<noteq> t"
    if a: "in_grid m0 x" "cell_at ?m' x \<noteq> cell_at m0 x" "x \<notin> set (rev ns @ rest)"
       "adjacent4 x y" "in_grid m0 y" for x y
  proof -
    from a(3) have xn: "x \<notin> set ns" by simp
    with a(2) c[OF a(1)] have px: "cell_at m x \<noteq> cell_at m0 x" by simp
    have "cell_at m y \<noteq> t" if "y \<notin> set ns"
    proof (cases "x = u")
      case True
      with a(4,5) nsd[of y] that show ?thesis by auto
    next
      case False
      with a(3) have "x \<notin> set (u # rest)" by simp
      from I4[OF a(1) px this a(4,5)] show ?thesis .
    qed
    with c[OF a(5)] ne show ?thesis by auto
  qed
  have J5: "cell_at ?m' s \<noteq> cell_at m0 s"
  proof (cases "s \<in> set ns")
    case True
    with c[of s] I5 ns0[OF True] ne show ?thesis by auto
  next
    case False
    with c[of s] I5 show ?thesis by auto
  qed
  show "ff_inv m0 t rep s ?m' (rev ns @ rest)"
    unfolding ff_inv_def using sh' J2 J3 J4 J5 I5 by blast
  show "tcells ?m' t = tcells m t - set ns"
    unfolding tcells_def using c g g' ne by auto
  show "set ns \<subseteq> tcells m t"
    unfolding tcells_def using nsd g by auto
qed

lemma flood_fill_while_total:
  assumes rect: "rectangular m0" and ne: "target_color p \<noteq> replacement_color p"
    and rc: "rows p = len_rows m0" "cols p = len_cols m0"
    and inv: "ff_inv m0 (target_color p) (replacement_color p) s (matrix p) stack"
  shows "\<exists>m'. flood_fill_while p stack = Some (Inr (p\<lparr>matrix := m'\<rparr>)) \<and>
              ff_inv m0 (target_color p) (replacement_color p) s m' []"
  using rc inv ne
proof (induction "5 * card (tcells (matrix p) (target_color p)) + length stack"
    arbitrary: p stack rule: less_induct)
  case less
  show ?case
  proof (cases stack)
    case Nil
    have "p\<lparr>matrix := matrix p\<rparr> = p" by simp
    with Nil less.prems(3) show ?thesis
      by (subst flood_fill_while.simps) (auto intro: exI[of _ "matrix p"])
  next
    case (Cons u rest)
    let ?t = "target_color p" and ?rep = "replacement_color p" and ?m = "matrix p"
    define ns where "ns = filter (\<lambda>y. in_grid ?m y \<and> cell_at ?m y = ?t) (neighbors4 u)"
    define m' where "m' = paint_all ?m ns ?rep"
    define p' where "p' = p\<lparr>matrix := m'\<rparr>"
    from less.prems(3) Cons have inv: "ff_inv m0 ?t ?rep s ?m (u # rest)" by simp
    note sh = ff_inv_shape[OF inv]
    have rm: "rectangular ?m" using rect rectangular_shape[OF sh] by simp
    have wf: "wf_problem p"
      unfolding wf_problem_def using rm less.prems(1,2) len_rows_shape[OF sh] len_cols_shape[OF sh]
      by simp
    have act: "FloodFillProblem_actions p u = Inr ns"
      by (simp add: actions_wf[OF wf] ns_def)
    have nsin: "\<forall>y \<in> set ns. in_grid ?m y" by (simp add: ns_def)
    have push: "flood_fill_push p u ns rest = Inr (p', rev ns @ rest)"
      by (simp add: push_wf[OF wf nsin] p'_def m'_def)
    from ff_inv_step[OF rect less.prems(4) inv]
    have inv': "ff_inv m0 ?t ?rep s m' (rev ns @ rest)"
      and tc: "tcells m' ?t = tcells ?m ?t - set ns" and sub: "set ns \<subseteq> tcells ?m ?t"
      by (simp_all add: m'_def ns_def)
    have len: "length ns \<le> 4"
      unfolding ns_def using length_filter_le[of _ "neighbors4 u"] by (simp add: length_neighbors4)
    have dec: "5 * card (tcells m' ?t) + length (rev ns @ rest) < 5 * card (tcells ?m ?t) + length stack"
    proof (cases "ns = []")
      case True
      with tc Cons show ?thesis by simp
    next
      case False
      then obtain y where "y \<in> set ns" by (cases ns) auto
      with sub tc have "y \<in> tcells ?m ?t" "y \<notin> tcells m' ?t" by auto
      moreover from tc have "tcells m' ?t \<subseteq> tcells ?m ?t" by auto
      ultimately have "tcells m' ?t \<subset> tcells ?m ?t" by auto
      from psubset_card_mono[OF finite_tcells this] len Cons show ?thesis by simp
    qed
    have step: "flood_fill_while p stack = flood_fill_while p' (rev ns @ rest)"
      by (subst flood_fill_while.simps) (simp add: Cons act push split: prod.splits)
    have "\<exists>m''. flood_fill_while p' (rev ns @ rest) = Some (Inr (p'\<lparr>matrix := m''\<rparr>)) \<and>
              ff_inv m0 (target_color p') (replacement_color p') s m'' []"
      by (rule less.hyps) (use dec inv' less.prems in \<open>simp_all add: p'_def\<close>)
    then show ?thesis unfolding step by (simp add: p'_def)
  qed
qed

lemma paint_same: "cell_at m x = v \<Longrightarrow> paint m x v = m"
  by (cases x) (auto simp: paint.simps cell_at.simps)

lemma paint_all_same: "\<forall>y \<in> set ys. cell_at m y = v \<Longrightarrow> paint_all m ys v = m"
  by (induction ys) (simp_all add: paint_same)

lemma flood_fill_while_stuck:
  assumes ret: "flood_fill_while p stack = Some y"
  shows "\<not> ff_stuck p stack"
proof (rule flood_fill_while.raw_induct[where P = "\<lambda>p stack y. \<not> ff_stuck p stack", OF _ ret],
    goal_cases)
  case (1 f p stack y)
  note IH = 1(1) and body = 1(2)
  show ?case
  proof
    assume stuck: "ff_stuck p stack"
    let ?m = "matrix p" and ?t = "target_color p"
    from stuck obtain u rest where st: "stack = u # rest" by (cases stack) (auto simp: ff_stuck_def)
    define ns where "ns = filter (\<lambda>y. in_grid ?m y \<and> cell_at ?m y = ?t) (neighbors4 u)"
    from stuck have wf: "wf_problem p" and eq: "replacement_color p = ?t"
      and all: "\<And>x. x \<in> set stack \<Longrightarrow> in_grid ?m x \<and> cell_at ?m x = ?t \<and>
          (\<exists>y. adjacent4 x y \<and> in_grid ?m y \<and> cell_at ?m y = ?t)"
      by (auto simp: ff_stuck_def)
    have nsd: "x \<in> set ns \<longleftrightarrow> adjacent4 u x \<and> in_grid ?m x \<and> cell_at ?m x = ?t" for x
      by (auto simp: ns_def set_neighbors4)
    have act: "FloodFillProblem_actions p u = Inr ns"
      by (simp add: actions_wf[OF wf] ns_def)
    have nsin: "\<forall>y \<in> set ns. in_grid ?m y" by (simp add: ns_def)
    have "paint_all ?m ns (replacement_color p) = ?m"
      by (rule paint_all_same) (simp add: nsd eq)
    then have push: "flood_fill_push p u ns rest = Inr (p, rev ns @ rest)"
      by (simp add: push_wf[OF wf nsin])
    from body have nxt: "f p (rev ns @ rest) = Some y"
      by (simp add: st act push split: prod.splits)
    from all[of u] st obtain z where "z \<in> set ns" by (auto simp: nsd)
    then have ne: "rev ns @ rest \<noteq> []" by auto
    have u: "in_grid ?m u \<and> cell_at ?m u = ?t" using all[of u] st by simp
    have "in_grid ?m x \<and> cell_at ?m x = ?t \<and>
          (\<exists>y. adjacent4 x y \<and> in_grid ?m y \<and> cell_at ?m y = ?t)" if "x \<in> set (rev ns @ rest)" for x
    proof (cases "x \<in> set ns")
      case True
      then have "adjacent4 x u" "in_grid ?m x" "cell_at ?m x = ?t"
        by (simp_all add: nsd adjacent4_sym)
      with u show ?thesis by blast
    next
      case False
      with that st all[of x] show ?thesis by simp
    qed
    with wf eq ne have "ff_stuck p (rev ns @ rest)" unfolding ff_stuck_def by auto
    with IH[OF nxt] show False by simp
  qed
qed

lemma flood_fill_dfs_same_color_diverges:
  assumes rect: "rectangular m" and s: "in_grid m s" and t: "cell_at m s = t"
    and y: "adjacent4 s y" "in_grid m y" "cell_at m y = t"
  shows "flood_fill_dfs (FloodFillProblem_init m s t t) = None"
proof -
  let ?p = "FloodFillProblem_init m s t t"
  obtain r c where rc: "s = (r, c)" by (cases s)
  have get: "get_cell m r c = Inr t"
    using get_cell_in_grid[OF rect s] rc t by simp
  have set: "set_cell m r c t = Inr m"
    using set_cell_in_grid[OF rect s, of t] rc paint_same[OF t] by simp
  have "?p\<lparr>matrix := m\<rparr> = ?p" by (simp add: FloodFillProblem_init_def)
  with get set have dfs: "flood_fill_dfs ?p = flood_fill_while ?p [s]"
    by (simp add: flood_fill_dfs_def FloodFillProblem_init_def rc)
  have "\<exists>y. adjacent4 s y \<and> in_grid m y \<and> cell_at m y = t" using y by blast
  then have "ff_stuck ?p [s]"
    unfolding ff_stuck_def wf_problem_def using rect s t
    by (simp add: FloodFillProblem_init_def)
  with flood_fill_while_stuck[of ?p "[s]"] have "flood_fill_while ?p [s] = None"
    by (cases "flood_fill_while ?p [s]") auto
  with dfs show ?thesis by simp
qed

section \<open>Flood fill: the painted region\<close>

text \<open>
  What the code does when the two colours differ. On a rectangular grid whose rows are
  distinct lists, with the start cell in the grid and a replacement colour that differs from
  the target colour, \<open>flood_fill_dfs\<close> returns; the shape of the matrix is unchanged; every
  cell reached from the start by 4-adjacent steps through cells that held the target colour
  holds the replacement colour; and every other cell of the grid holds what it held before.
\<close>

lemma flood_fill_dfs_fills_region:
  assumes rect: "rectangular m" and s: "in_grid m s" and ne: "t \<noteq> rep"
  shows "\<exists>m'. flood_fill_dfs (FloodFillProblem_init m s t rep)
                  = Some (Inr ((FloodFillProblem_init m s t rep)\<lparr>matrix := m'\<rparr>))
              \<and> map length m' = map length m
              \<and> (\<forall>x. in_grid m x \<longrightarrow>
                    cell_at m' x = (if reachable4 m t s x then rep else cell_at m x))"
proof -
  let ?p = "FloodFillProblem_init m s t rep"
  obtain r c where rc: "s = (r, c)" by (cases s)
  have get: "get_cell m r c = Inr (cell_at m s)"
    using get_cell_in_grid[OF rect s] rc by simp
  show ?thesis
  proof (cases "cell_at m s = t")
    case False
    then have "\<not> reachable4 m t s x" for x
      by (auto dest: reachable4_start_target)
    moreover have "flood_fill_dfs ?p = Some (Inr ?p)"
      using get False by (simp add: flood_fill_dfs_def FloodFillProblem_init_def rc)
    moreover have "?p\<lparr>matrix := m\<rparr> = ?p" by (simp add: FloodFillProblem_init_def)
    ultimately show ?thesis by (intro exI[of _ m]) simp
  next
    case True
    let ?p1 = "?p\<lparr>matrix := paint m s rep\<rparr>"
    have set: "set_cell m r c rep = Inr (paint m s rep)"
      using set_cell_in_grid[OF rect s] rc by simp
    have dfs: "flood_fill_dfs ?p = flood_fill_while ?p1 [s]"
      using get set True by (simp add: flood_fill_dfs_def FloodFillProblem_init_def rc)
    from ff_inv_init[OF rect s True ne]
    have "ff_inv m (target_color ?p1) (replacement_color ?p1) s (matrix ?p1) [s]"
      by (simp add: FloodFillProblem_init_def)
    from flood_fill_while_total[OF rect _ _ _ this]
    obtain m' where w: "flood_fill_while ?p1 [s] = Some (Inr (?p1\<lparr>matrix := m'\<rparr>))"
      and inv: "ff_inv m t rep s m' []"
      using ne by (auto simp: FloodFillProblem_init_def)
    from w dfs have "flood_fill_dfs ?p = Some (Inr (?p\<lparr>matrix := m'\<rparr>))" by simp
    with ff_inv_shape[OF inv] ff_inv_final[OF inv] show ?thesis by blast
  qed
qed

text \<open>The grid \<open>[["X", "Y"], ["X", "X"]]\<close>, filled from \<open>(0, 0)\<close> with \<open>"C"\<close>.\<close>

lemma flood_fill_dfs_fills_region_example:
  "rectangular [[''X'', ''Y''], [''X'', ''X'']]
   \<and> in_grid [[''X'', ''Y''], [''X'', ''X'']] (0, 0)
   \<and> ''X'' \<noteq> ''C''
   \<and> flood_fill_dfs (FloodFillProblem_init [[''X'', ''Y''], [''X'', ''X'']] (0, 0) ''X'' ''C'')
       = Some (Inr ((FloodFillProblem_init [[''X'', ''Y''], [''X'', ''X'']] (0, 0) ''X'' ''C'')
                      \<lparr>matrix := [[''C'', ''Y''], [''C'', ''C'']]\<rparr>))
   \<and> (\<exists>m'. flood_fill_dfs (FloodFillProblem_init [[''X'', ''Y''], [''X'', ''X'']] (0, 0) ''X'' ''C'')
              = Some (Inr ((FloodFillProblem_init [[''X'', ''Y''], [''X'', ''X'']] (0, 0) ''X'' ''C'')
                             \<lparr>matrix := m'\<rparr>))
          \<and> map length m' = map length [[''X'', ''Y''], [''X'', ''X'']]
          \<and> (\<forall>x. in_grid [[''X'', ''Y''], [''X'', ''X'']] x \<longrightarrow>
                cell_at m' x =
                  (if reachable4 [[''X'', ''Y''], [''X'', ''X'']] ''X'' (0, 0) x then ''C''
                   else cell_at [[''X'', ''Y''], [''X'', ''X'']] x)))"
proof -
  have r: "rectangular [[''X'', ''Y''], [''X'', ''X'']]"
    by (simp add: rectangular_def)
  have g: "in_grid [[''X'', ''Y''], [''X'', ''X'']] (0, 0)"
    by (simp add: in_grid.simps len_rows_def len_cols_def)
  have n: "''X'' \<noteq> ''C''" by simp
  have e: "flood_fill_dfs (FloodFillProblem_init [[''X'', ''Y''], [''X'', ''X'']] (0, 0) ''X'' ''C'')
       = Some (Inr ((FloodFillProblem_init [[''X'', ''Y''], [''X'', ''X'']] (0, 0) ''X'' ''C'')
                      \<lparr>matrix := [[''C'', ''Y''], [''C'', ''C'']]\<rparr>))"
    by code_simp
  from r g n e flood_fill_dfs_fills_region[OF r g n] show ?thesis by blast
qed

text \<open>
  Claim C1 says that for every grid, valid start, target colour and replacement colour,
  after \<open>flood_fill_dfs\<close> every cell of the region reached from the start holds the
  replacement colour and every other cell is unchanged. The code does so when the colours
  differ, as shown above. With a replacement colour equal to the target colour the call
  does not return, so there is no grid after it: on the grid \<open>[["X"], ["X"]]\<close>, started at
  \<open>(0, 0)\<close> with both colours \<open>"X"\<close>, the cells \<open>(0, 0)\<close> and \<open>(1, 0)\<close> push each other for
  ever.
\<close>

theorem flood_fill_dfs_region_no_return:
  "flood_fill_dfs (FloodFillProblem_init [[''X''], [''X'']] (0, 0) ''X'' ''X'') = None"
  by (rule flood_fill_dfs_same_color_diverges[where y = "(1, 0)"])
     (simp_all add: rectangular_def in_grid.simps cell_at.simps adjacent4.simps
        len_rows_def len_cols_def)

section \<open>Flood fill: target colour equal to replacement colour\<close>

text \<open>
  Claim C2 says that with equal colours and a start cell of that colour the traversal
  still terminates and is a no-op. The code paints the start cell with the colour it
  already has, so the test "still has the target colour" never fails for a painted cell:
  two adjacent cells of that colour push each other for ever. On the grid
  \<open>[["X", "X"]]\<close>, started at \<open>(0, 0)\<close> with both colours \<open>"X"\<close>, \<open>flood_fill_dfs\<close> does
  not return.
\<close>

theorem flood_fill_dfs_same_color_no_return:
  "flood_fill_dfs (FloodFillProblem_init [[''X'', ''X'']] (0, 0) ''X'' ''X'') = None"
  by (rule flood_fill_dfs_same_color_diverges[where y = "(0, 1)"])
     (simp_all add: rectangular_def in_grid.simps cell_at.simps adjacent4.simps
        len_rows_def len_cols_def)

section \<open>Word search (word_search.py)\<close>

record 'a WordSearchProblem =
  board :: "'a list list"
  dictionary :: "'a list list"
  board_rows :: int
  board_cols :: int

definition WordSearchProblem_init :: "'a list list \<Rightarrow> 'a list list \<Rightarrow> 'a WordSearchProblem" where
  "WordSearchProblem_init b d =
     \<lparr>board = b, dictionary = d, board_rows = len_rows b, board_cols = len_cols b\<rparr>"

text \<open>The eight directions, in the order of the source.\<close>

definition deltas8 :: "(int \<times> int) list" where
  "deltas8 = [(-1, -1), (-1, 0), (-1, 1), (0, -1), (0, 1), (1, -1), (1, 0), (1, 1)]"

text \<open>
  The inner function \<open>dfs\<close> of \<open>can_form_word_dfs\<close> and its loop over the directions.
  \<open>b\<close> is the board and \<open>word\<close> the word of the enclosing call; \<open>index\<close> starts at 0 and
  only grows, so it is a \<open>nat\<close>. The set \<open>visited\<close> is mutated in place by the source; the
  model returns it with the answer. \<open>visited.remove\<close> raises \<open>KeyError\<close> for an element that
  is not in the set.
\<close>

function dfs ::
  "'a list list \<Rightarrow> 'a list \<Rightarrow> int \<Rightarrow> int \<Rightarrow> nat \<Rightarrow> (int \<times> int) set
     \<Rightarrow> py_error + (bool \<times> (int \<times> int) set)"
and dfs_loop ::
  "'a list list \<Rightarrow> 'a list \<Rightarrow> int \<Rightarrow> int \<Rightarrow> nat \<Rightarrow> (int \<times> int) set \<Rightarrow> (int \<times> int) list
     \<Rightarrow> py_error + (bool \<times> (int \<times> int) set)" where
  "dfs b word r c index visited =
     (if index = length word then Inr (True, visited)
      else if \<not> (0 \<le> r \<and> r < len_rows b \<and> 0 \<le> c \<and> c < len_cols b)
      then Inr (False, visited)
      else
        (case get_cell b r c of
           Inl e \<Rightarrow> Inl e
         | Inr ch \<Rightarrow>
             (case py_get word (int index) of
                Inl e \<Rightarrow> Inl e
              | Inr w \<Rightarrow>
                  if ch \<noteq> w then Inr (False, visited)
                  else if (r, c) \<in> visited then Inr (False, visited)
                  else
                    (case dfs_loop b word r c index (insert (r, c) visited) deltas8 of
                       Inl e \<Rightarrow> Inl e
                     | Inr (found, visited') \<Rightarrow>
                         if found then Inr (True, visited')
                         else if (r, c) \<in> visited' then Inr (False, visited' - {(r, c)})
                         else Inl KeyError))))"
| "dfs_loop b word r c index visited [] = Inr (False, visited)"
| "dfs_loop b word r c index visited ((dr, dc) # ds) =
     (case dfs b word (r + dr) (c + dc) (index + 1) visited of
        Inl e \<Rightarrow> Inl e
      | Inr (found, visited') \<Rightarrow>
          if found then Inr (True, visited')
          else dfs_loop b word r c index visited' ds)"
  by pat_completeness auto
termination
  apply (relation "inv_image (less_than <*lex*> less_than)
    (\<lambda>x. case x of
       Inl (b, word, r, c, index, visited) \<Rightarrow>
         (if index < length word then 3 * (length word - index) else 0, 0)
     | Inr (b, word, r, c, index, visited, ds) \<Rightarrow>
         (if index < length word then 3 * (length word - index) - 1 else 1, length ds))")
     apply (auto simp: py_get_def py_index_def split: if_splits option.splits)
  done

text \<open>The scan of \<open>can_form_word_dfs\<close> over the cells \<open>for r in range(rows): for c in
  range(cols)\<close>, in that order, given as a list.\<close>

fun can_form_scan ::
  "'a list list \<Rightarrow> 'a list \<Rightarrow> 'a \<Rightarrow> (int \<times> int) list \<Rightarrow> py_error + bool" where
  "can_form_scan b word first_char [] = Inr False"
| "can_form_scan b word first_char ((r, c) # cells) =
     (case get_cell b r c of
        Inl e \<Rightarrow> Inl e
      | Inr ch \<Rightarrow>
          if ch = first_char then
            (case dfs b word r c 0 {} of
               Inl e \<Rightarrow> Inl e
             | Inr (found, visited) \<Rightarrow>
                 if found then Inr True else can_form_scan b word first_char cells)
          else can_form_scan b word first_char cells)"

definition can_form_word_dfs :: "'a list list \<Rightarrow> 'a list \<Rightarrow> py_error + bool" where
  "can_form_word_dfs b word =
     (case py_get word 0 of
        Inl e \<Rightarrow> Inl e
      | Inr first_char \<Rightarrow>
          can_form_scan b word first_char
            (List.product [0..len_rows b - 1] [0..len_cols b - 1]))"

text \<open>\<open>find_all_words\<close> goes through the dictionary in its order and collects a set.\<close>

fun find_all_words_loop ::
  "'a list list \<Rightarrow> 'a list list \<Rightarrow> 'a list set \<Rightarrow> py_error + 'a list set" where
  "find_all_words_loop b [] result = Inr result"
| "find_all_words_loop b (w # ws) result =
     (case can_form_word_dfs b w of
        Inl e \<Rightarrow> Inl e
      | Inr found \<Rightarrow> find_all_words_loop b ws (if found then insert w result else result))"

definition find_all_words :: "'a WordSearchProblem \<Rightarrow> py_error + 'a list set" where
  "find_all_words problem = find_all_words_loop (board problem) (dictionary problem) {}"

section \<open>Word search: properties of the search\<close>

declare dfs.simps [simp del]

lemma card_in_grid: "card {x. in_grid b x} = nat (len_rows b) * nat (len_cols b)"
proof -
  have "{x. in_grid b x} = {0..<len_rows b} \<times> {0..<len_cols b}"
    by (auto simp: in_grid.simps)
  then show ?thesis by (simp add: card_cartesian_product)
qed

lemma dfs_restores:
  "(case dfs b word r c index visited of
      Inl e \<Rightarrow> e = IndexError
    | Inr (found, visited') \<Rightarrow> (\<not> found \<longrightarrow> visited' = visited) \<and> visited \<subseteq> visited')"
  and dfs_loop_restores: "(case dfs_loop b word r c index visited ds of
      Inl e \<Rightarrow> e = IndexError
    | Inr (found, visited') \<Rightarrow> (\<not> found \<longrightarrow> visited' = visited) \<and> visited \<subseteq> visited')"
proof (induction b word r c index visited and b word r c index visited ds rule: dfs_dfs_loop.induct)
  case (1 b word r c index visited)
  show ?case
  proof (cases "index \<noteq> length word \<and> 0 \<le> r \<and> r < len_rows b \<and> 0 \<le> c \<and> c < len_cols b")
    case False
    then show ?thesis by (subst dfs.simps) auto
  next
    case inb: True
    show ?thesis
    proof (cases "get_cell b r c")
      case (Inl e)
      then have "e = IndexError"
        by (auto simp: get_cell_def py_get_def split: sum.splits option.splits)
      with Inl inb show ?thesis by (subst dfs.simps) simp
    next
      case ch: (Inr ch)
      show ?thesis
      proof (cases "py_get word (int index)")
        case (Inl e)
        then have "e = IndexError" by (auto simp: py_get_def split: option.splits)
        with Inl inb ch show ?thesis by (subst dfs.simps) simp
      next
        case w: (Inr w)
        show ?thesis
        proof (cases "ch = w \<and> (r, c) \<notin> visited")
          case False
          with inb ch w show ?thesis by (subst dfs.simps) auto
        next
          case True
          from inb True have "index \<noteq> length word"
            "\<not> \<not> (0 \<le> r \<and> r < len_rows b \<and> 0 \<le> c \<and> c < len_cols b)"
            "\<not> ch \<noteq> w" "(r, c) \<notin> visited" by simp_all
          note IH = "1.IH"[OF this(1,2) ch w this(3,4)]
          with inb ch w True show ?thesis
            by (subst dfs.simps) (auto split: sum.splits)
        qed
      qed
    qed
  qed
next
  case (2 b word r c index visited)
  show ?case by simp
next
  case (3 b word r c index visited dr dc ds)
  show ?case
  proof (cases "dfs b word (r + dr) (c + dc) (index + 1) visited")
    case (Inl e)
    with "3.IH"(1) show ?thesis by simp
  next
    case (Inr res)
    obtain found visited' where res: "res = (found, visited')" by (cases res)
    show ?thesis
    proof (cases found)
      case True
      with "3.IH"(1) Inr res show ?thesis by simp
    next
      case False
      with "3.IH"(1) Inr res have v: "visited' = visited" by simp
      from "3.IH"(2)[OF Inr res[symmetric] False] Inr res False v show ?thesis
        by (auto split: sum.splits prod.splits)
    qed
  qed
qed

lemma dfs_pigeonhole:
  "rectangular b \<Longrightarrow> visited \<subseteq> {x. in_grid b x} \<Longrightarrow>
     card {x. in_grid b x} - card visited < length word - index \<Longrightarrow>
     dfs b word r c index visited = Inr (False, visited)"
  and "rectangular b \<Longrightarrow> visited \<subseteq> {x. in_grid b x} \<Longrightarrow>
     card {x. in_grid b x} - card visited < length word - (index + 1) \<Longrightarrow>
     dfs_loop b word r c index visited ds = Inr (False, visited)"
proof (induction b word r c index visited and b word r c index visited ds rule: dfs_dfs_loop.induct)
  case (1 b word r c index visited)
  from "1.prems"(3) have lt: "index < length word" by simp
  show ?case
  proof (cases "0 \<le> r \<and> r < len_rows b \<and> 0 \<le> c \<and> c < len_cols b")
    case False
    with lt show ?thesis by (subst dfs.simps) auto
  next
    case inb: True
    then have g: "in_grid b (r, c)" by (simp add: in_grid.simps)
    from get_cell_in_grid[OF "1.prems"(1) g]
    have ch: "get_cell b r c = Inr (cell_at b (r, c))" by simp
    from lt have w: "py_get word (int index) = Inr (word ! index)"
      by (simp add: py_get_def py_index_def)
    show ?thesis
    proof (cases "cell_at b (r, c) = word ! index \<and> (r, c) \<notin> visited")
      case False
      with inb lt ch w show ?thesis by (subst dfs.simps) auto
    next
      case True
      have fin: "finite visited"
        by (rule finite_subset[OF "1.prems"(2) finite_in_grid])
      from True g "1.prems"(2) have sub: "insert (r, c) visited \<subseteq> {x. in_grid b x}" by simp
      from card_mono[OF finite_in_grid sub] True fin
      have "card visited + 1 \<le> card {x. in_grid b x}" by simp
      with "1.prems"(3) True fin
      have cnt: "card {x. in_grid b x} - card (insert (r, c) visited) < length word - (index + 1)"
        by simp
      from inb lt True have "index \<noteq> length word"
        "\<not> \<not> (0 \<le> r \<and> r < len_rows b \<and> 0 \<le> c \<and> c < len_cols b)"
        "\<not> cell_at b (r, c) \<noteq> word ! index" "(r, c) \<notin> visited" by simp_all
      from "1.IH"[OF this(1,2) ch w this(3,4) "1.prems"(1) sub cnt]
      have "dfs_loop b word r c index (insert (r, c) visited) deltas8
              = Inr (False, insert (r, c) visited)" .
      with inb lt ch w True show ?thesis by (subst dfs.simps) simp
    qed
  qed
next
  case (2 b word r c index visited)
  show ?case by simp
next
  case (3 b word r c index visited dr dc ds)
  from "3.IH"(1)[OF "3.prems"]
  have d: "dfs b word (r + dr) (c + dc) (index + 1) visited = Inr (False, visited)" .
  from "3.IH"(2)[OF d refl _ "3.prems"] d show ?case by simp
qed

lemma can_form_scan_long_word:
  assumes "rectangular b" and "nat (len_rows b) * nat (len_cols b) < length word"
    and "\<forall>x \<in> set cells. in_grid b x"
  shows "can_form_scan b word first_char cells = Inr False"
  using assms(3)
proof (induction cells)
  case Nil
  show ?case by simp
next
  case (Cons x cells)
  obtain r c where x: "x = (r, c)" by (cases x)
  from Cons.prems x have g: "in_grid b (r, c)" by simp
  from get_cell_in_grid[OF assms(1) g]
  have ch: "get_cell b r c = Inr (cell_at b (r, c))" by simp
  have "dfs b word r c 0 {} = Inr (False, {})"
    by (rule dfs_pigeonhole(1)[OF assms(1)]) (use assms(2) in \<open>simp_all add: card_in_grid\<close>)
  with ch Cons show ?case unfolding x by simp
qed

lemma grid_cells_in_grid:
  "\<forall>x \<in> set (List.product [0..len_rows b - 1] [0..len_cols b - 1]). in_grid b x"
  by (auto simp: in_grid.simps)

lemma find_all_words_loop_result:
  "find_all_words_loop b ws result = Inr S \<Longrightarrow>
     S = result \<union> {w \<in> set ws. can_form_word_dfs b w = Inr True}"
proof (induction ws arbitrary: result)
  case Nil
  then show ?case by simp
next
  case (Cons w ws)
  then show ?case by (auto split: sum.splits if_splits)
qed

lemma find_all_words_loop_total:
  "\<forall>w \<in> set ws. \<exists>found. can_form_word_dfs b w = Inr found \<Longrightarrow>
     find_all_words_loop b ws result =
       Inr (result \<union> {w \<in> set ws. can_form_word_dfs b w = Inr True})"
proof (induction ws arbitrary: result)
  case Nil
  then show ?case by simp
next
  case (Cons w ws)
  then show ?case by (auto split: sum.splits if_splits)
qed

lemma get_cell_error: "get_cell b r c = Inl e \<Longrightarrow> e = IndexError"
  by (auto simp: get_cell_def py_get_def split: sum.splits option.splits)

lemma can_form_scan_error: "can_form_scan b word first_char cells = Inl e \<Longrightarrow> e = IndexError"
proof (induction cells)
  case Nil
  then show ?case by simp
next
  case (Cons x cells)
  obtain r c where x: "x = (r, c)" by (cases x)
  from dfs_restores(1)[where b = b and word = word and r = r and c = c and index = 0
      and visited = "{}"] Cons show ?case unfolding x
    by (auto split: sum.splits if_splits dest: get_cell_error)
qed

lemma can_form_word_dfs_error: "can_form_word_dfs b word = Inl e \<Longrightarrow> e = IndexError"
  by (auto simp: can_form_word_dfs_def py_get_def split: sum.splits option.splits
      dest: can_form_scan_error)

lemma find_all_words_loop_error:
  "w \<in> set ws \<Longrightarrow> can_form_word_dfs b w = Inl e \<Longrightarrow>
     find_all_words_loop b ws result = Inl IndexError"
proof (induction ws arbitrary: result)
  case Nil
  then show ?case by simp
next
  case (Cons v ws)
  show ?case
  proof (cases "can_form_word_dfs b v")
    case (Inl e')
    with can_form_word_dfs_error[OF Inl] show ?thesis by simp
  next
    case (Inr found)
    with Cons.prems have "w \<in> set ws" by auto
    from Cons.IH[OF this Cons.prems(2)] Inr show ?thesis by simp
  qed
qed

section \<open>Word search: the scenario of the specification\<close>

text \<open>
  Claim C3, as the code has it. On the grid \<open>[["C","A","T"],["A","T","C"]]\<close> and any
  dictionary whose words are \<open>"CAT"\<close>, \<open>"ACT"\<close> and \<open>"DOG"\<close>, \<open>find_all_words\<close> returns
  the set \<open>{"CAT", "ACT"}\<close>: \<open>"ACT"\<close> is traced by \<open>A (0,1)\<close>, \<open>C (0,0)\<close>, \<open>T (1,1)\<close>, the last
  step being diagonal.
\<close>

theorem find_all_words_scenario:
  assumes "set d = {''CAT'', ''ACT'', ''DOG''}"
  shows "find_all_words
           (WordSearchProblem_init
              [[CHR ''C'', CHR ''A'', CHR ''T''], [CHR ''A'', CHR ''T'', CHR ''C'']] d)
         = Inr {''CAT'', ''ACT''}"
proof -
  let ?b = "[[CHR ''C'', CHR ''A'', CHR ''T''], [CHR ''A'', CHR ''T'', CHR ''C'']]"
  have cat: "can_form_word_dfs ?b ''CAT'' = Inr True" by code_simp
  have act: "can_form_word_dfs ?b ''ACT'' = Inr True" by code_simp
  have dog: "can_form_word_dfs ?b ''DOG'' = Inr False" by code_simp
  from assms cat act dog have "\<forall>w \<in> set d. \<exists>found. can_form_word_dfs ?b w = Inr found"
    by auto
  from find_all_words_loop_total[OF this, of "{}"]
  have "find_all_words_loop ?b d {} = Inr {w \<in> set d. can_form_word_dfs ?b w = Inr True}"
    by simp
  moreover have "{w \<in> set d. can_form_word_dfs ?b w = Inr True} = {''CAT'', ''ACT''}"
  proof (rule set_eqI)
    fix w
    show "w \<in> {w \<in> set d. can_form_word_dfs ?b w = Inr True} \<longleftrightarrow> w \<in> {''CAT'', ''ACT''}"
      using cat act dog by (auto simp: assms)
  qed
  ultimately show ?thesis
    by (simp add: find_all_words_def WordSearchProblem_init_def)
qed

theorem find_all_words_scenario_witness:
  "set [''CAT'', ''ACT'', ''DOG''] = {''CAT'', ''ACT'', ''DOG''}
   \<and> find_all_words
        (WordSearchProblem_init
           [[CHR ''C'', CHR ''A'', CHR ''T''], [CHR ''A'', CHR ''T'', CHR ''C'']]
           [''CAT'', ''ACT'', ''DOG''])
      = Inr {''CAT'', ''ACT''}"
  using find_all_words_scenario[of "[''CAT'', ''ACT'', ''DOG'']"] by simp

text \<open>The claim as written says the result is \<open>{"CAT"}\<close>, with \<open>"ACT"\<close> absent.\<close>

theorem find_all_words_scenario_counterexample:
  "find_all_words
     (WordSearchProblem_init
        [[CHR ''C'', CHR ''A'', CHR ''T''], [CHR ''A'', CHR ''T'', CHR ''C'']]
        [''CAT'', ''ACT'', ''DOG''])
   \<noteq> Inr {''CAT''}
   \<and> can_form_word_dfs
        [[CHR ''C'', CHR ''A'', CHR ''T''], [CHR ''A'', CHR ''T'', CHR ''C'']] ''ACT''
      = Inr True"
  by code_simp

section \<open>Word search: words longer than the board\<close>

text \<open>
  Claim C7. On a rectangular board with \<open>rows \<times> cols\<close> cells, a word with more than
  \<open>rows \<times> cols\<close> letters makes \<open>can_form_word_dfs\<close> return \<open>False\<close>, and whenever
  \<open>find_all_words\<close> returns a set for that board, the word is not in it.
\<close>

theorem long_word_never_found:
  assumes "rectangular b" and "nat (len_rows b) * nat (len_cols b) < length word"
  shows "can_form_word_dfs b word = Inr False
       \<and> (\<forall>problem S. board problem = b \<longrightarrow> find_all_words problem = Inr S \<longrightarrow> word \<notin> S)"
proof -
  from assms(2) have "word \<noteq> []" by auto
  then have "py_get word 0 = Inr (word ! 0)" by (simp add: py_get_def py_index_def)
  with can_form_scan_long_word[OF assms grid_cells_in_grid]
  have f: "can_form_word_dfs b word = Inr False" by (simp add: can_form_word_dfs_def)
  show ?thesis
  proof (intro conjI allI impI)
    show "can_form_word_dfs b word = Inr False" by (rule f)
  next
    fix problem :: "'a WordSearchProblem" and S
    assume "board problem = b" and "find_all_words problem = Inr S"
    with find_all_words_loop_result[of b "dictionary problem" "{}" S] f
    show "word \<notin> S" by (simp add: find_all_words_def)
  qed
qed

theorem long_word_never_found_witness:
  "rectangular [[CHR ''C'', CHR ''A'']]
   \<and> nat (len_rows [[CHR ''C'', CHR ''A'']]) * nat (len_cols [[CHR ''C'', CHR ''A'']])
       < length ''CAC''
   \<and> can_form_word_dfs [[CHR ''C'', CHR ''A'']] ''CAC'' = Inr False
   \<and> find_all_words (WordSearchProblem_init [[CHR ''C'', CHR ''A'']] [''CA'', ''CAC''])
       = Inr {''CA''}
   \<and> ''CAC'' \<notin> {''CA''}"
proof -
  have r: "rectangular [[CHR ''C'', CHR ''A'']]" by (simp add: rectangular_def)
  have l: "nat (len_rows [[CHR ''C'', CHR ''A'']]) * nat (len_cols [[CHR ''C'', CHR ''A'']])
       < length ''CAC''"
    by (simp add: len_rows_def len_cols_def)
  have f: "find_all_words (WordSearchProblem_init [[CHR ''C'', CHR ''A'']] [''CA'', ''CAC''])
       = Inr {''CA''}"
    by code_simp
  have bd: "board (WordSearchProblem_init [[CHR ''C'', CHR ''A'']] [''CA'', ''CAC''])
       = [[CHR ''C'', CHR ''A'']]"
    by (simp add: WordSearchProblem_init_def)
  from long_word_never_found[OF r l]
  have c: "can_form_word_dfs [[CHR ''C'', CHR ''A'']] ''CAC'' = Inr False"
    and a: "\<And>problem S. board problem = [[CHR ''C'', CHR ''A'']] \<Longrightarrow>
          find_all_words problem = Inr S \<Longrightarrow> ''CAC'' \<notin> S"
    by blast+
  from a[OF bd f] have n: "''CAC'' \<notin> {''CA''}" .
  from r l c f n show ?thesis by blast
qed

section \<open>Word search: the empty word\<close>

text \<open>
  Claim C10. For the empty word \<open>can_form_word_dfs\<close> raises \<open>IndexError\<close> on every board
  (it reads \<open>word[0]\<close> first), and \<open>find_all_words\<close> raises \<open>IndexError\<close> whenever the
  dictionary contains the empty word.
\<close>

theorem empty_word_index_error:
  "can_form_word_dfs b [] = Inl IndexError
   \<and> ([] \<in> set (dictionary problem) \<longrightarrow> find_all_words problem = Inl IndexError)"
proof -
  have e1: "can_form_word_dfs b [] = Inl IndexError"
    by (simp add: can_form_word_dfs_def py_get_def py_index_def)
  have e2: "can_form_word_dfs (board problem) [] = Inl IndexError"
    by (simp add: can_form_word_dfs_def py_get_def py_index_def)
  from e1 find_all_words_loop_error[OF _ e2, of "dictionary problem" "{}"]
  show ?thesis by (simp add: find_all_words_def)
qed

theorem empty_word_index_error_witness:
  "[] \<in> set (dictionary (WordSearchProblem_init [[CHR ''C'']] [''C'', []]))
   \<and> can_form_word_dfs [[CHR ''C'']] [] = Inl IndexError
   \<and> find_all_words (WordSearchProblem_init [[CHR ''C'']] [''C'', []]) = Inl IndexError"
  using empty_word_index_error
    [of "[[CHR ''C'']]" "WordSearchProblem_init [[CHR ''C'']] [''C'', []]"]
  by (simp add: WordSearchProblem_init_def)

section \<open>Longest consecutive path (finding_long_way.py)\<close>

text \<open>
  The cells of this exercise are one-character strings. A character is modelled by its code
  point, a natural number below \<open>0x110000\<close>: \<open>ord\<close> gives the code point and \<open>chr\<close>
  raises \<open>ValueError\<close> outside \<open>range(0x110000)\<close>. The fields \<open>char_matrix\<close>, \<open>char_rows\<close>
  and \<open>char_cols\<close> are the fields \<open>matrix\<close>, \<open>rows\<close> and \<open>cols\<close> of
  \<open>LongestConsecutivePathProblem\<close>.
\<close>

definition py_ord :: "nat \<Rightarrow> int" where
  "py_ord ch = int ch"

definition py_chr :: "int \<Rightarrow> py_error + nat" where
  "py_chr i = (if 0 \<le> i \<and> i < 0x110000 then Inr (nat i) else Inl ValueError)"

record LongestConsecutivePathProblem =
  char_matrix :: "nat list list"
  char_rows :: int
  char_cols :: int
  start_char :: nat

definition LongestConsecutivePathProblem_init ::
  "nat list list \<Rightarrow> nat \<Rightarrow> LongestConsecutivePathProblem" where
  "LongestConsecutivePathProblem_init m ch =
     \<lparr>char_matrix = m, char_rows = len_rows m, char_cols = len_cols m, start_char = ch\<rparr>"

fun LongestConsecutivePathProblem_actions_loop ::
  "LongestConsecutivePathProblem \<Rightarrow> int \<times> int \<Rightarrow> nat \<Rightarrow> (int \<times> int) list \<Rightarrow> (int \<times> int) list
     \<Rightarrow> py_error + (int \<times> int) list" where
  "LongestConsecutivePathProblem_actions_loop p (r, c) next_char [] neighbors = Inr neighbors"
| "LongestConsecutivePathProblem_actions_loop p (r, c) next_char ((dr, dc) # ds) neighbors =
     (let nr = r + dr; nc = c + dc in
      if 0 \<le> nr \<and> nr < char_rows p \<and> 0 \<le> nc \<and> nc < char_cols p then
        (case get_cell (char_matrix p) nr nc of
           Inl e \<Rightarrow> Inl e
         | Inr v \<Rightarrow>
             if v = next_char
             then LongestConsecutivePathProblem_actions_loop p (r, c) next_char ds
                    (neighbors @ [(nr, nc)])
             else LongestConsecutivePathProblem_actions_loop p (r, c) next_char ds neighbors)
      else LongestConsecutivePathProblem_actions_loop p (r, c) next_char ds neighbors)"

definition LongestConsecutivePathProblem_actions ::
  "LongestConsecutivePathProblem \<Rightarrow> int \<times> int \<Rightarrow> py_error + (int \<times> int) list" where
  "LongestConsecutivePathProblem_actions p state =
     (case state of (r, c) \<Rightarrow>
        (case get_cell (char_matrix p) r c of
           Inl e \<Rightarrow> Inl e
         | Inr curr_char \<Rightarrow>
             (case py_chr (py_ord curr_char + 1) of
                Inl e \<Rightarrow> Inl e
              | Inr next_char \<Rightarrow>
                  LongestConsecutivePathProblem_actions_loop p (r, c) next_char deltas8 [])))"

text \<open>The number of code points from the character of a cell up to \<open>0x110000\<close>; it bounds
  the chains of successors that start at the cell, and is the measure of the recursion of
  \<open>dfs_longest\<close>.\<close>

definition succ_height :: "nat list list \<Rightarrow> int \<times> int \<Rightarrow> nat" where
  "succ_height m x =
     (case get_cell m (fst x) (snd x) of Inl e \<Rightarrow> 0 | Inr v \<Rightarrow> 0x110000 - v)"

fun max_height :: "nat list list \<Rightarrow> (int \<times> int) list \<Rightarrow> nat" where
  "max_height m [] = 0"
| "max_height m (x # xs) = max (succ_height m x) (max_height m xs)"

lemma char_actions_loop_children:
  "LongestConsecutivePathProblem_actions_loop p x next_char ds acc = Inr children \<Longrightarrow>
     y \<in> set children \<Longrightarrow> y \<in> set acc \<or>
       (get_cell (char_matrix p) (fst y) (snd y) = Inr next_char
        \<and> 0 \<le> fst y \<and> fst y < char_rows p \<and> 0 \<le> snd y \<and> snd y < char_cols p
        \<and> y \<in> set (map (\<lambda>d. (fst x + fst d, snd x + snd d)) ds))"
proof (induction p x next_char ds acc rule: LongestConsecutivePathProblem_actions_loop.induct)
  case (1 p r c next_char neighbors)
  then show ?case by simp
next
  case (2 p r c next_char dr dc ds neighbors)
  show ?case
  proof (cases "0 \<le> r + dr \<and> r + dr < char_rows p \<and> 0 \<le> c + dc \<and> c + dc < char_cols p")
    case False
    with 2 show ?thesis by (auto simp: Let_def)
  next
    case True
    show ?thesis
    proof (cases "get_cell (char_matrix p) (r + dr) (c + dc)")
      case (Inl e)
      with True "2.prems" show ?thesis by (simp add: Let_def)
    next
      case (Inr v)
      show ?thesis
      proof (cases "v = next_char")
        case eq: True
        from "2.IH"(1)[OF refl refl True Inr eq] "2.prems" True Inr eq
        show ?thesis by (auto simp: Let_def)
      next
        case ne: False
        from "2.IH"(2)[OF refl refl True Inr ne] "2.prems" True Inr ne
        show ?thesis by (auto simp: Let_def)
      qed
    qed
  qed
qed

lemma char_actions_children:
  assumes "LongestConsecutivePathProblem_actions p (r, c) = Inr children"
  shows "\<exists>v. get_cell (char_matrix p) r c = Inr v \<and> v + 1 < 0x110000 \<and>
     (\<forall>y \<in> set children. get_cell (char_matrix p) (fst y) (snd y) = Inr (v + 1)
        \<and> 0 \<le> fst y \<and> fst y < char_rows p \<and> 0 \<le> snd y \<and> snd y < char_cols p
        \<and> y \<in> set (map (\<lambda>d. (r + fst d, c + snd d)) deltas8))"
proof -
  from assms obtain v where v: "get_cell (char_matrix p) r c = Inr v"
    by (auto simp: LongestConsecutivePathProblem_actions_def split: sum.splits)
  with assms obtain nx where nx: "py_chr (py_ord v + 1) = Inr nx"
    by (auto simp: LongestConsecutivePathProblem_actions_def split: sum.splits)
  then have n: "nx = v + 1" "v + 1 < 0x110000"
    by (auto simp: py_chr_def py_ord_def split: if_splits)
  from assms v nx have
    "LongestConsecutivePathProblem_actions_loop p (r, c) nx deltas8 [] = Inr children"
    by (simp add: LongestConsecutivePathProblem_actions_def)
  from char_actions_loop_children[OF this] v n show ?thesis by auto
qed

lemma char_actions_height:
  assumes "LongestConsecutivePathProblem_actions p (r, c) = Inr children"
  shows "max_height (char_matrix p) children < succ_height (char_matrix p) (r, c)"
proof -
  from char_actions_children[OF assms] obtain v where v: "get_cell (char_matrix p) r c = Inr v"
    "v + 1 < 0x110000"
    and ch: "\<And>y. y \<in> set children \<Longrightarrow> get_cell (char_matrix p) (fst y) (snd y) = Inr (v + 1)"
    by blast
  have "max_height (char_matrix p) ys < 0x110000 - v" if "set ys \<subseteq> set children" for ys
    using that
  proof (induction ys)
    case Nil
    from v(2) show ?case by simp
  next
    case (Cons y ys)
    with ch[of y] v(2) show ?case by (simp add: succ_height_def)
  qed
  from this[of children] v(1) show ?thesis by (simp add: succ_height_def)
qed

text \<open>\<open>dfs_longest\<close> and its loop over the children, with \<open>best_len\<close> so far.\<close>

function dfs_longest :: "LongestConsecutivePathProblem \<Rightarrow> int \<Rightarrow> int \<Rightarrow> py_error + int"
and dfs_longest_loop ::
  "LongestConsecutivePathProblem \<Rightarrow> (int \<times> int) list \<Rightarrow> int \<Rightarrow> py_error + int" where
  "dfs_longest p r c =
     (case LongestConsecutivePathProblem_actions p (r, c) of
        Inl e \<Rightarrow> Inl e
      | Inr children \<Rightarrow> dfs_longest_loop p children 1)"
| "dfs_longest_loop p [] best_len = Inr best_len"
| "dfs_longest_loop p ((nr, nc) # children) best_len =
     (case dfs_longest p nr nc of
        Inl e \<Rightarrow> Inl e
      | Inr n \<Rightarrow>
          (let length_child = 1 + n in
           dfs_longest_loop p children
             (if length_child > best_len then length_child else best_len)))"
  by pat_completeness auto
termination
  apply (relation "inv_image (less_than <*lex*> less_than)
    (\<lambda>x. case x of
       Inl (p, r, c) \<Rightarrow> (2 * succ_height (char_matrix p) (r, c) + 1, 0)
     | Inr (p, children, best_len) \<Rightarrow>
         (2 * max_height (char_matrix p) children + 2, length children))")
  subgoal by auto
  subgoal for p r c b using char_actions_height[of p r c b] by simp
  subgoal by (simp add: max_def)
  subgoal by (auto simp: max_def)
  done

text \<open>The scan of \<open>find_longest_consecutive_path\<close> over the cells \<open>for r in range(rows):
  for c in range(cols)\<close>, with \<open>longest_path\<close> so far.\<close>

fun find_longest_loop ::
  "LongestConsecutivePathProblem \<Rightarrow> (int \<times> int) list \<Rightarrow> int \<Rightarrow> py_error + int" where
  "find_longest_loop p [] longest_path = Inr longest_path"
| "find_longest_loop p ((r, c) # cells) longest_path =
     (case get_cell (char_matrix p) r c of
        Inl e \<Rightarrow> Inl e
      | Inr ch \<Rightarrow>
          if ch = start_char p then
            (case dfs_longest p r c of
               Inl e \<Rightarrow> Inl e
             | Inr n \<Rightarrow>
                 find_longest_loop p cells (if n > longest_path then n else longest_path))
          else find_longest_loop p cells longest_path)"

definition find_longest_consecutive_path :: "LongestConsecutivePathProblem \<Rightarrow> py_error + int" where
  "find_longest_consecutive_path p =
     find_longest_loop p (List.product [0..char_rows p - 1] [0..char_cols p - 1]) 0"

text \<open>The recursive calls of \<open>dfs_longest\<close>: the call at \<open>x\<close> calls \<open>dfs_longest\<close> at every
  child \<open>y\<close> that \<open>actions\<close> returns for \<open>x\<close>.\<close>

definition dfs_longest_calls ::
  "LongestConsecutivePathProblem \<Rightarrow> ((int \<times> int) \<times> (int \<times> int)) set" where
  "dfs_longest_calls p =
     {(y, x). \<exists>children. LongestConsecutivePathProblem_actions p x = Inr children \<and> y \<in> set children}"

text \<open>The fields \<open>char_rows\<close> and \<open>char_cols\<close> are those of a rectangular matrix.\<close>

definition wf_char_problem :: "LongestConsecutivePathProblem \<Rightarrow> bool" where
  "wf_char_problem p \<longleftrightarrow>
     rectangular (char_matrix p) \<and> char_rows p = len_rows (char_matrix p)
     \<and> char_cols p = len_cols (char_matrix p)"

section \<open>Longest consecutive path: termination\<close>

declare dfs_longest.simps [simp del]

lemma dfs_longest_calls_height:
  assumes "(y, x) \<in> dfs_longest_calls p"
  shows "succ_height (char_matrix p) y < succ_height (char_matrix p) x"
proof -
  obtain r c where x: "x = (r, c)" by (cases x)
  from assms x obtain children where a: "LongestConsecutivePathProblem_actions p (r, c) = Inr children"
    and y: "y \<in> set children"
    by (auto simp: dfs_longest_calls_def)
  from char_actions_children[OF a] y obtain v where "get_cell (char_matrix p) r c = Inr v"
    "v + 1 < 0x110000" "get_cell (char_matrix p) (fst y) (snd y) = Inr (v + 1)"
    by blast
  then show ?thesis unfolding x by (simp add: succ_height_def)
qed

lemma max_height_less:
  "max_height m ys < h \<Longrightarrow> y \<in> set ys \<Longrightarrow> succ_height m y < h"
  by (induction ys) auto

lemma dfs_longest_bounded:
  "dfs_longest p r c = Inr n \<Longrightarrow>
     1 \<le> n \<and> n \<le> int (succ_height (char_matrix p) (r, c))"
  and "dfs_longest_loop p children best_len = Inr n \<Longrightarrow>
     max_height (char_matrix p) children < h \<Longrightarrow>
     best_len \<le> n \<and> n \<le> max best_len (int h)"
proof (induction p r c and p children best_len arbitrary: n and n h
    rule: dfs_longest_dfs_longest_loop.induct)
  case (1 p r c)
  from "1.prems" obtain children where
    a: "LongestConsecutivePathProblem_actions p (r, c) = Inr children"
    and l: "dfs_longest_loop p children 1 = Inr n"
    by (subst (asm) dfs_longest.simps) (auto split: sum.splits)
  from "1.IH"[OF a l char_actions_height[OF a]] char_actions_height[OF a]
  show ?case by auto
next
  case (2 p best_len)
  then show ?case by simp
next
  case (3 p nr nc children best_len)
  from "3.prems"(1) obtain k where k: "dfs_longest p nr nc = Inr k"
    and l: "dfs_longest_loop p children (if 1 + k > best_len then 1 + k else best_len) = Inr n"
    by (auto simp: Let_def split: sum.splits)
  from "3.prems"(2) have h: "succ_height (char_matrix p) (nr, nc) < h"
    "max_height (char_matrix p) children < h" by simp_all
  from "3.IH"(1)[OF k] h(1) have kb: "1 \<le> k" "1 + k \<le> int h" by auto
  from "3.IH"(2)[OF k refl l h(2)] kb show ?case by (auto split: if_splits)
qed

text \<open>
  Claim C5. For every grid and every starting cell \<open>dfs_longest\<close> terminates, with no
  visited set: the relation between a call and the calls it makes is well-founded, because
  every child holds the successor of the character of its parent; and a returned length is
  at least 1 and at most the number of code points from the character of the start cell on.
  (\<open>dfs_longest\<close> is a total function of the model: its recursion is accepted with the
  measure \<open>succ_height\<close>. A call may end by raising an error.)
\<close>

theorem dfs_longest_terminates:
  "wf (dfs_longest_calls p)
   \<and> (\<forall>x y v. (y, x) \<in> dfs_longest_calls p \<longrightarrow>
         get_cell (char_matrix p) (fst x) (snd x) = Inr v \<longrightarrow>
         get_cell (char_matrix p) (fst y) (snd y) = Inr (v + 1))
   \<and> (\<forall>n. dfs_longest p r c = Inr n \<longrightarrow>
         1 \<le> n \<and> n \<le> int (succ_height (char_matrix p) (r, c)))"
proof (intro conjI allI impI)
  have "dfs_longest_calls p \<subseteq> measure (succ_height (char_matrix p))"
    using dfs_longest_calls_height by auto
  then show "wf (dfs_longest_calls p)" by (rule wf_subset[OF wf_measure])
next
  fix x y v
  assume c: "(y, x) \<in> dfs_longest_calls p"
    and g: "get_cell (char_matrix p) (fst x) (snd x) = Inr v"
  obtain r c' where x: "x = (r, c')" by (cases x)
  from c x obtain children where a: "LongestConsecutivePathProblem_actions p (r, c') = Inr children"
    and y: "y \<in> set children"
    by (auto simp: dfs_longest_calls_def)
  from char_actions_children[OF a] y g x
  show "get_cell (char_matrix p) (fst y) (snd y) = Inr (v + 1)" by auto
next
  fix n
  assume "dfs_longest p r c = Inr n"
  from dfs_longest_bounded(1)[OF this]
  show "1 \<le> n" and "n \<le> int (succ_height (char_matrix p) (r, c))" by simp_all
qed

text \<open>The grid \<open>[["A", "B"]]\<close>: the call at \<open>(0, 0)\<close> calls \<open>(0, 1)\<close>, which holds the successor.\<close>

theorem dfs_longest_terminates_witness:
  "((0, 1), (0, 0)) \<in> dfs_longest_calls (LongestConsecutivePathProblem_init [[65, 66]] 65)
   \<and> get_cell (char_matrix (LongestConsecutivePathProblem_init [[65, 66]] 65)) 0 0 = Inr 65
   \<and> get_cell (char_matrix (LongestConsecutivePathProblem_init [[65, 66]] 65)) 0 1 = Inr (65 + 1)
   \<and> wf (dfs_longest_calls (LongestConsecutivePathProblem_init [[65, 66]] 65))
   \<and> dfs_longest (LongestConsecutivePathProblem_init [[65, 66]] 65) 0 0 = Inr 2
   \<and> (2::int) \<le> int (succ_height (char_matrix (LongestConsecutivePathProblem_init [[65, 66]] 65)) (0, 0))"
proof -
  let ?p = "LongestConsecutivePathProblem_init [[65, 66]] 65"
  have a0: "LongestConsecutivePathProblem_actions ?p (0, 0) = Inr [(0, 1)]"
    by (simp add: LongestConsecutivePathProblem_actions_def LongestConsecutivePathProblem_init_def
        get_cell_def py_get_def py_index_def py_chr_def py_ord_def deltas8_def Let_def
        len_rows_def len_cols_def)
  have a1: "LongestConsecutivePathProblem_actions ?p (0, 1) = Inr []"
    by (simp add: LongestConsecutivePathProblem_actions_def LongestConsecutivePathProblem_init_def
        get_cell_def py_get_def py_index_def py_chr_def py_ord_def deltas8_def Let_def
        len_rows_def len_cols_def)
  have c: "((0, 1), (0, 0)) \<in> dfs_longest_calls ?p"
    by (simp add: dfs_longest_calls_def a0)
  have g: "get_cell (char_matrix ?p) 0 0 = Inr 65"
    by (simp add: LongestConsecutivePathProblem_init_def get_cell_def py_get_def py_index_def)
  have d: "dfs_longest ?p 0 0 = Inr 2"
    by (simp add: dfs_longest.simps a0 a1)
  from dfs_longest_terminates[of ?p 0 0] c g d show ?thesis by auto
qed

section \<open>Longest consecutive path: the returned length\<close>

lemma cell_at_in_concat:
  assumes "rectangular m" and "in_grid m x"
  shows "cell_at m x \<in> set (concat m)"
proof -
  obtain r c where x: "x = (r, c)" by (cases x)
  from in_grid_row[OF assms(1)] assms(2) x
  have "nat r < length m" "nat c < length (m ! nat r)" by auto
  then have "m ! nat r \<in> set m" "m ! nat r ! nat c \<in> set (m ! nat r)" by simp_all
  then show ?thesis unfolding x by (auto simp: cell_at.simps)
qed

lemma concat_has_cell:
  assumes "rectangular m" and "v \<in> set (concat m)"
  shows "\<exists>x. in_grid m x \<and> cell_at m x = v"
proof -
  from assms(2) obtain row where row: "row \<in> set m" "v \<in> set row" by auto
  then obtain i where i: "i < length m" "m ! i = row" by (auto simp: in_set_conv_nth)
  from row(2) obtain j where j: "j < length row" "row ! j = v" by (auto simp: in_set_conv_nth)
  from i have ne: "len_rows m > 0" by (auto simp: len_rows_def)
  from rectangular_row[OF assms(1) i(1)] i j have "j < length (m ! 0)" by simp
  with ne i(1) have "in_grid m (int i, int j)"
    by (simp add: in_grid.simps len_rows_def len_cols_def)
  moreover from i j have "cell_at m (int i, int j) = v" by (simp add: cell_at.simps)
  ultimately show ?thesis by blast
qed

lemma set_grid_cells: "set (List.product [0..len_rows m - 1] [0..len_cols m - 1]) = {x. in_grid m x}"
  by (auto simp: in_grid.simps)

lemma char_actions_loop_total:
  assumes "wf_char_problem p"
  shows "\<exists>children. LongestConsecutivePathProblem_actions_loop p x next_char ds acc = Inr children"
proof (induction ds arbitrary: acc)
  case Nil
  show ?case by (cases x) simp
next
  case (Cons d ds)
  obtain r c where x: "x = (r, c)" by (cases x)
  obtain dr dc where d: "d = (dr, dc)" by (cases d)
  from assms have rect: "rectangular (char_matrix p)"
    and rc: "char_rows p = len_rows (char_matrix p)" "char_cols p = len_cols (char_matrix p)"
    by (simp_all add: wf_char_problem_def)
  show ?case
  proof (cases "in_grid (char_matrix p) (r + dr, c + dc)")
    case True
    from get_cell_in_grid[OF rect True]
    have "get_cell (char_matrix p) (r + dr) (c + dc) = Inr (cell_at (char_matrix p) (r + dr, c + dc))"
      by simp
    with True Cons.IH show ?thesis unfolding x d
      by (simp add: rc Let_def in_grid.simps)
  next
    case False
    with Cons.IH show ?thesis unfolding x d
      by (auto simp: rc Let_def in_grid.simps)
  qed
qed

lemma char_actions_total:
  assumes wf: "wf_char_problem p" and g: "in_grid (char_matrix p) (r, c)"
    and v: "cell_at (char_matrix p) (r, c) < 0x10FFFF"
  shows "\<exists>children. LongestConsecutivePathProblem_actions p (r, c) = Inr children"
proof -
  from wf have rect: "rectangular (char_matrix p)" by (simp add: wf_char_problem_def)
  from get_cell_in_grid[OF rect g]
  have get: "get_cell (char_matrix p) r c = Inr (cell_at (char_matrix p) (r, c))" by simp
  from v have chr: "py_chr (py_ord (cell_at (char_matrix p) (r, c)) + 1)
      = Inr (cell_at (char_matrix p) (r, c) + 1)"
    by (simp add: py_chr_def py_ord_def nat_add_distrib)
  from char_actions_loop_total[OF wf] get chr show ?thesis
    by (simp add: LongestConsecutivePathProblem_actions_def)
qed

lemma dfs_longest_returns:
  "wf_char_problem p \<Longrightarrow> \<forall>v \<in> set (concat (char_matrix p)). v < 0x10FFFF \<Longrightarrow>
     in_grid (char_matrix p) (r, c) \<Longrightarrow> \<exists>n. dfs_longest p r c = Inr n"
  and "wf_char_problem p \<Longrightarrow> \<forall>v \<in> set (concat (char_matrix p)). v < 0x10FFFF \<Longrightarrow>
     \<forall>y \<in> set children. in_grid (char_matrix p) y \<Longrightarrow>
     \<exists>n. dfs_longest_loop p children best_len = Inr n"
proof (induction p r c and p children best_len rule: dfs_longest_dfs_longest_loop.induct)
  case (1 p r c)
  from "1.prems"(1) have rect: "rectangular (char_matrix p)"
    and rc: "char_rows p = len_rows (char_matrix p)" "char_cols p = len_cols (char_matrix p)"
    by (simp_all add: wf_char_problem_def)
  from cell_at_in_concat[OF rect "1.prems"(3)] "1.prems"(2)
  have "cell_at (char_matrix p) (r, c) < 0x10FFFF" by blast
  from char_actions_total[OF "1.prems"(1,3) this]
  obtain children where a: "LongestConsecutivePathProblem_actions p (r, c) = Inr children" ..
  from char_actions_children[OF a] rc
  have "\<forall>y \<in> set children. in_grid (char_matrix p) y"
    by (auto simp: in_grid.simps)
  from "1.IH"[OF a "1.prems"(1,2) this] a show ?case
    by (subst dfs_longest.simps) simp
next
  case (2 p best_len)
  show ?case by simp
next
  case (3 p nr nc children best_len)
  from "3.prems"(3) have g: "in_grid (char_matrix p) (nr, nc)"
    and rest: "\<forall>y \<in> set children. in_grid (char_matrix p) y" by simp_all
  from "3.IH"(1)[OF "3.prems"(1,2) g] obtain k where k: "dfs_longest p nr nc = Inr k" ..
  from "3.IH"(2)[OF k refl "3.prems"(1,2) rest] k show ?case by (simp add: Let_def)
qed

lemma find_longest_loop_absent:
  assumes "wf_char_problem p"
    and "\<forall>x \<in> set cells. in_grid (char_matrix p) x \<and> cell_at (char_matrix p) x \<noteq> start_char p"
  shows "find_longest_loop p cells longest_path = Inr longest_path"
  using assms(2)
proof (induction cells)
  case Nil
  show ?case by simp
next
  case (Cons x cells)
  obtain r c where x: "x = (r, c)" by (cases x)
  from assms(1) have rect: "rectangular (char_matrix p)" by (simp add: wf_char_problem_def)
  from Cons.prems x have g: "in_grid (char_matrix p) (r, c)"
    and ne: "cell_at (char_matrix p) (r, c) \<noteq> start_char p" by simp_all
  from get_cell_in_grid[OF rect g] ne Cons show ?case unfolding x by simp
qed

lemma find_longest_loop_good:
  assumes wf: "wf_char_problem p" and good: "\<forall>v \<in> set (concat (char_matrix p)). v < 0x10FFFF"
    and "\<forall>x \<in> set cells. in_grid (char_matrix p) x"
  shows "\<exists>n. find_longest_loop p cells longest_path = Inr n \<and> longest_path \<le> n
     \<and> ((\<exists>x \<in> set cells. cell_at (char_matrix p) x = start_char p) \<longrightarrow> 1 \<le> n)"
  using assms(3)
proof (induction cells arbitrary: longest_path)
  case Nil
  show ?case by simp
next
  case (Cons x cells)
  obtain r c where x: "x = (r, c)" by (cases x)
  from wf have rect: "rectangular (char_matrix p)" by (simp add: wf_char_problem_def)
  from Cons.prems x have g: "in_grid (char_matrix p) (r, c)"
    and rest: "\<forall>x \<in> set cells. in_grid (char_matrix p) x" by simp_all
  from get_cell_in_grid[OF rect g]
  have get: "get_cell (char_matrix p) r c = Inr (cell_at (char_matrix p) (r, c))" by simp
  show ?case
  proof (cases "cell_at (char_matrix p) (r, c) = start_char p")
    case False
    with Cons.IH[OF rest, of longest_path] get show ?thesis unfolding x by auto
  next
    case True
    from dfs_longest_returns(1)[OF wf good g] obtain k where k: "dfs_longest p r c = Inr k" ..
    from dfs_longest_bounded(1)[OF k] have k1: "1 \<le> k" by simp
    from Cons.IH[OF rest, of "if k > longest_path then k else longest_path"]
    obtain n where "find_longest_loop p cells (if k > longest_path then k else longest_path) = Inr n"
      "(if k > longest_path then k else longest_path) \<le> n" by blast
    with True get k k1 show ?thesis unfolding x by (auto split: if_splits)
  qed
qed

text \<open>
  Claim C6, as the code has it. On a rectangular grid \<open>find_longest_consecutive_path\<close>
  returns 0 when the start character occurs in no cell, and returns a length of at least
  1 when it occurs in some cell and no cell holds the last code point \<open>U+10FFFF\<close>.
\<close>

theorem find_longest_consecutive_path_bounds:
  assumes "rectangular m"
  shows "(ch \<notin> set (concat m) \<longrightarrow>
            find_longest_consecutive_path (LongestConsecutivePathProblem_init m ch) = Inr 0)
       \<and> (ch \<in> set (concat m) \<and> (\<forall>v \<in> set (concat m). v < 0x10FFFF) \<longrightarrow>
            (\<exists>n. find_longest_consecutive_path (LongestConsecutivePathProblem_init m ch) = Inr n
                \<and> 1 \<le> n))"
proof (intro conjI impI)
  let ?p = "LongestConsecutivePathProblem_init m ch"
  have wf: "wf_char_problem ?p"
    using assms by (simp add: wf_char_problem_def LongestConsecutivePathProblem_init_def)
  have m: "char_matrix ?p = m" "start_char ?p = ch" "char_rows ?p = len_rows m"
    "char_cols ?p = len_cols m"
    by (simp_all add: LongestConsecutivePathProblem_init_def)
  {
    assume "ch \<notin> set (concat m)"
    with cell_at_in_concat[OF assms]
    have "\<forall>x \<in> set (List.product [0..len_rows m - 1] [0..len_cols m - 1]).
            in_grid (char_matrix ?p) x \<and> cell_at (char_matrix ?p) x \<noteq> start_char ?p"
      unfolding set_grid_cells m by auto
    from find_longest_loop_absent[OF wf this]
    show "find_longest_consecutive_path ?p = Inr 0"
      by (simp add: find_longest_consecutive_path_def m)
  }
  {
    assume a: "ch \<in> set (concat m) \<and> (\<forall>v \<in> set (concat m). v < 0x10FFFF)"
    then have good: "\<forall>v \<in> set (concat (char_matrix ?p)). v < 0x10FFFF" by (simp add: m)
    have cells: "\<forall>x \<in> set (List.product [0..len_rows m - 1] [0..len_cols m - 1]).
            in_grid (char_matrix ?p) x"
      unfolding set_grid_cells m by simp
    from concat_has_cell[OF assms] a
    have "\<exists>x \<in> set (List.product [0..len_rows m - 1] [0..len_cols m - 1]).
            cell_at (char_matrix ?p) x = start_char ?p"
      unfolding set_grid_cells m by auto
    with find_longest_loop_good[OF wf good cells, of 0]
    show "\<exists>n. find_longest_consecutive_path ?p = Inr n \<and> 1 \<le> n"
      by (auto simp: find_longest_consecutive_path_def m)
  }
qed

text \<open>The grid \<open>[["A", "B"], ["D", "C"]]\<close> of the specification: the chain from \<open>"A"\<close> has
  length 4, and \<open>"Z"\<close> does not occur.\<close>

theorem find_longest_consecutive_path_bounds_witness:
  "rectangular [[65, 66], [68, 67 :: nat]]
   \<and> 90 \<notin> set (concat [[65, 66], [68, 67 :: nat]])
   \<and> find_longest_consecutive_path (LongestConsecutivePathProblem_init [[65, 66], [68, 67]] 90)
       = Inr 0
   \<and> 65 \<in> set (concat [[65, 66], [68, 67 :: nat]])
   \<and> list_all (\<lambda>v. v < 0x10FFFF) (concat [[65, 66], [68, 67 :: nat]])
   \<and> find_longest_consecutive_path (LongestConsecutivePathProblem_init [[65, 66], [68, 67]] 65)
       = Inr 4
   \<and> (\<exists>n. find_longest_consecutive_path (LongestConsecutivePathProblem_init [[65, 66], [68, 67]] 65)
            = Inr n \<and> 1 \<le> n)"
proof -
  have r: "rectangular [[65, 66], [68, 67 :: nat]]" by (simp add: rectangular_def)
  have e: "find_longest_consecutive_path (LongestConsecutivePathProblem_init [[65, 66], [68, 67]] 65)
       = Inr 4"
    by code_simp
  from find_longest_consecutive_path_bounds[OF r, of 90]
    find_longest_consecutive_path_bounds[OF r, of 65] r e
  show ?thesis by simp
qed

text \<open>
  The claim as written covers every character. A cell that holds the last code point
  \<open>U+10FFFF\<close> has no successor: \<open>chr(ord(curr_char) + 1)\<close> raises \<open>ValueError\<close>, and no
  length is returned although the start character occurs.
\<close>

theorem find_longest_consecutive_path_bounds_counterexample:
  "0x10FFFF \<in> set (concat [[0x10FFFF :: nat]])
   \<and> find_longest_consecutive_path (LongestConsecutivePathProblem_init [[0x10FFFF]] 0x10FFFF)
       = Inl ValueError"
  by (simp add: find_longest_consecutive_path_def LongestConsecutivePathProblem_init_def
      len_rows_def len_cols_def get_cell_def py_get_def py_index_def dfs_longest.simps
      LongestConsecutivePathProblem_actions_def py_chr_def py_ord_def)

section \<open>The traversals with a log of their accesses\<close>

text \<open>
  The traversals with a log. An \<open>Access\<close> entry records a read or a write of a cell of the
  grid, a \<open>Visited\<close> entry the visited set of the word search together with the path of the
  active calls. Each traced function follows its original line by line and returns the log
  with the original's result.
\<close>

datatype event = Access "int \<times> int" | Visited "(int \<times> int) set" "(int \<times> int) list"

text \<open>
  \<open>dfs\<close> with its log. \<open>path\<close> is the list of the cells marked by the calls that are active
  when this call is made: a call passes \<open>path @ [(r, c)]\<close> to the calls of its loop once it
  has marked \<open>(r, c)\<close>. It is not part of the source; it stands for the call stack.
\<close>

function dfs_trace ::
  "'a list list \<Rightarrow> 'a list \<Rightarrow> int \<Rightarrow> int \<Rightarrow> nat \<Rightarrow> (int \<times> int) set \<Rightarrow> (int \<times> int) list
     \<Rightarrow> event list \<times> (py_error + (bool \<times> (int \<times> int) set))"
and dfs_loop_trace ::
  "'a list list \<Rightarrow> 'a list \<Rightarrow> int \<Rightarrow> int \<Rightarrow> nat \<Rightarrow> (int \<times> int) set \<Rightarrow> (int \<times> int) list
     \<Rightarrow> (int \<times> int) list \<Rightarrow> event list \<times> (py_error + (bool \<times> (int \<times> int) set))" where
  "dfs_trace b word r c index visited path =
     (if index = length word then ([Visited visited path], Inr (True, visited))
      else if \<not> (0 \<le> r \<and> r < len_rows b \<and> 0 \<le> c \<and> c < len_cols b)
      then ([Visited visited path], Inr (False, visited))
      else
        (case get_cell b r c of
           Inl e \<Rightarrow> ([Visited visited path, Access (r, c)], Inl e)
         | Inr ch \<Rightarrow>
             (case py_get word (int index) of
                Inl e \<Rightarrow> ([Visited visited path, Access (r, c)], Inl e)
              | Inr w \<Rightarrow>
                  if ch \<noteq> w then ([Visited visited path, Access (r, c)], Inr (False, visited))
                  else if (r, c) \<in> visited
                  then ([Visited visited path, Access (r, c)], Inr (False, visited))
                  else
                    (case dfs_loop_trace b word r c index (insert (r, c) visited)
                            (path @ [(r, c)]) deltas8 of
                       (log, Inl e) \<Rightarrow>
                         ([Visited visited path, Access (r, c),
                           Visited (insert (r, c) visited) (path @ [(r, c)])] @ log, Inl e)
                     | (log, Inr (found, visited')) \<Rightarrow>
                         if found then
                           ([Visited visited path, Access (r, c),
                             Visited (insert (r, c) visited) (path @ [(r, c)])] @ log,
                            Inr (True, visited'))
                         else if (r, c) \<in> visited' then
                           ([Visited visited path, Access (r, c),
                             Visited (insert (r, c) visited) (path @ [(r, c)])] @ log
                              @ [Visited (visited' - {(r, c)}) path],
                            Inr (False, visited' - {(r, c)}))
                         else
                           ([Visited visited path, Access (r, c),
                             Visited (insert (r, c) visited) (path @ [(r, c)])] @ log,
                            Inl KeyError)))))"
| "dfs_loop_trace b word r c index visited path [] = ([], Inr (False, visited))"
| "dfs_loop_trace b word r c index visited path ((dr, dc) # ds) =
     (case dfs_trace b word (r + dr) (c + dc) (index + 1) visited path of
        (log, Inl e) \<Rightarrow> (log, Inl e)
      | (log, Inr (found, visited')) \<Rightarrow>
          if found then (log, Inr (True, visited'))
          else
            (case dfs_loop_trace b word r c index visited' path ds of
               (log', res) \<Rightarrow> (log @ log', res)))"
  by pat_completeness auto
termination
  apply (relation "inv_image (less_than <*lex*> less_than)
    (\<lambda>x. case x of
       Inl (b, word, r, c, index, visited, path) \<Rightarrow>
         (if index < length word then 3 * (length word - index) else 0, 0)
     | Inr (b, word, r, c, index, visited, path, ds) \<Rightarrow>
         (if index < length word then 3 * (length word - index) - 1 else 1, length ds))")
     apply (auto simp: py_get_def py_index_def split: if_splits option.splits)
  done

declare dfs_trace.simps [simp del]


lemma dfs_trace_result:
  "snd (dfs_trace b word r c index visited path) = dfs b word r c index visited"
  and dfs_loop_trace_result:
    "snd (dfs_loop_trace b word r c index visited path ds) = dfs_loop b word r c index visited ds"
proof (induction b word r c index visited path and b word r c index visited path ds
    rule: dfs_trace_dfs_loop_trace.induct)
  case (1 b word r c index visited path)
  show ?case
  proof (cases "index \<noteq> length word \<and> 0 \<le> r \<and> r < len_rows b \<and> 0 \<le> c \<and> c < len_cols b")
    case False
    then show ?thesis by (subst dfs_trace.simps, subst dfs.simps) auto
  next
    case inb: True
    show ?thesis
    proof (cases "get_cell b r c")
      case (Inl e)
      with inb show ?thesis by (subst dfs_trace.simps, subst dfs.simps) simp
    next
      case ch: (Inr ch)
      show ?thesis
      proof (cases "py_get word (int index)")
        case (Inl e)
        with inb ch show ?thesis by (subst dfs_trace.simps, subst dfs.simps) simp
      next
        case w: (Inr w)
        show ?thesis
        proof (cases "ch = w \<and> (r, c) \<notin> visited")
          case False
          with inb ch w show ?thesis by (subst dfs_trace.simps, subst dfs.simps) auto
        next
          case True
          from inb True have "index \<noteq> length word"
            "\<not> \<not> (0 \<le> r \<and> r < len_rows b \<and> 0 \<le> c \<and> c < len_cols b)"
            "\<not> ch \<noteq> w" "(r, c) \<notin> visited" by simp_all
          note IH = "1.IH"[OF this(1,2) ch w this(3,4)]
          show ?thesis
            by (subst dfs_trace.simps, subst dfs.simps)
               (use inb ch w True IH in \<open>auto split: prod.splits sum.splits\<close>)
        qed
      qed
    qed
  qed
next
  case (2 b word r c index visited path)
  show ?case by simp
next
  case (3 b word r c index visited path dr dc ds)
  show ?case
  proof (cases "dfs_trace b word (r + dr) (c + dc) (index + 1) visited path")
    case (Pair log res)
    with "3.IH"(1) have d: "dfs b word (r + dr) (c + dc) (index + 1) visited = res" by simp
    show ?thesis
    proof (cases res)
      case (Inl e)
      with Pair d show ?thesis by simp
    next
      case (Inr fv)
      obtain found visited' where fv: "fv = (found, visited')" by (cases fv)
      show ?thesis
      proof (cases found)
        case True
        with Pair Inr fv d show ?thesis by simp
      next
        case False
        from "3.IH"(2)[OF Pair[symmetric] Inr fv[symmetric] False] Pair Inr fv False d
        show ?thesis by (auto split: prod.splits)
      qed
    qed
  qed
qed


text \<open>What the claim says of a \<open>Visited\<close> entry: the set is the set of the cells of the path,
  and no cell is on the path twice.\<close>

fun visited_ok :: "event \<Rightarrow> bool" where
  "visited_ok (Visited visited path) = (visited = set path \<and> distinct path)"
| "visited_ok (Access x) = True"

lemma dfs_trace_visited:
  "visited = set path \<Longrightarrow> distinct path \<Longrightarrow>
     list_all visited_ok (fst (dfs_trace b word r c index visited path))"
  and dfs_loop_trace_visited: "visited = set path \<Longrightarrow> distinct path \<Longrightarrow>
     list_all visited_ok (fst (dfs_loop_trace b word r c index visited path ds))"
proof (induction b word r c index visited path and b word r c index visited path ds
    rule: dfs_trace_dfs_loop_trace.induct)
  case (1 b word r c index visited path)
  note vp = "1.prems"
  show ?case
  proof (cases "index \<noteq> length word \<and> 0 \<le> r \<and> r < len_rows b \<and> 0 \<le> c \<and> c < len_cols b")
    case False
    with vp show ?thesis by (subst dfs_trace.simps) auto
  next
    case inb: True
    show ?thesis
    proof (cases "get_cell b r c")
      case (Inl e)
      with inb vp show ?thesis by (subst dfs_trace.simps) simp
    next
      case ch: (Inr ch)
      show ?thesis
      proof (cases "py_get word (int index)")
        case (Inl e)
        with inb ch vp show ?thesis by (subst dfs_trace.simps) simp
      next
        case w: (Inr w)
        show ?thesis
        proof (cases "ch = w \<and> (r, c) \<notin> visited")
          case False
          with inb ch w vp show ?thesis by (subst dfs_trace.simps) auto
        next
          case True
          from inb True have "index \<noteq> length word"
            "\<not> \<not> (0 \<le> r \<and> r < len_rows b \<and> 0 \<le> c \<and> c < len_cols b)"
            "\<not> ch \<noteq> w" "(r, c) \<notin> visited" by simp_all
          note IH = "1.IH"[OF this(1,2) ch w this(3,4)]
          from vp True have vp': "insert (r, c) visited = set (path @ [(r, c)])"
            "distinct (path @ [(r, c)])" by auto
          note log = IH[OF vp']
          obtain lg res where l: "dfs_loop_trace b word r c index (insert (r, c) visited)
              (path @ [(r, c)]) deltas8 = (lg, res)" by (cases "dfs_loop_trace b word r c index (insert (r, c) visited)
              (path @ [(r, c)]) deltas8")
          from dfs_loop_trace_result[of b word r c index "insert (r, c) visited" "path @ [(r, c)]" deltas8] l
          have res: "dfs_loop b word r c index (insert (r, c) visited) deltas8 = res" by simp
          from dfs_loop_restores[where b = b and word = word and r = r and c = c and index = index
              and visited = "insert (r, c) visited" and ds = deltas8] res
          have restored: "\<And>v'. res = Inr (False, v') \<Longrightarrow> v' = insert (r, c) visited" by auto
          show ?thesis
            by (subst dfs_trace.simps)
               (use inb ch w True log l vp vp' restored in \<open>auto split: sum.splits\<close>)
        qed
      qed
    qed
  qed
next
  case (2 b word r c index visited path)
  show ?case by simp
next
  case (3 b word r c index visited path dr dc ds)
  note vp = "3.prems"
  obtain lg res where l: "dfs_trace b word (r + dr) (c + dc) (index + 1) visited path = (lg, res)"
    by (cases "dfs_trace b word (r + dr) (c + dc) (index + 1) visited path")
  from "3.IH"(1)[OF vp] l have lg: "list_all visited_ok lg" by simp
  from dfs_trace_result[of b word "r + dr" "c + dc" "index + 1" visited path] l
  have d: "dfs b word (r + dr) (c + dc) (index + 1) visited = res" by simp
  show ?case
  proof (cases res)
    case (Inl e)
    with l lg show ?thesis by simp
  next
    case (Inr fv)
    obtain found visited' where fv: "fv = (found, visited')" by (cases fv)
    show ?thesis
    proof (cases found)
      case True
      with l lg Inr fv show ?thesis by simp
    next
      case False
      from dfs_restores(1)[where b = b and word = word and r = "r + dr" and c = "c + dc"
          and index = "index + 1" and visited = visited] d Inr fv False
      have v: "visited' = visited" by simp
      from "3.IH"(2)[OF l[symmetric] Inr fv[symmetric] False] vp v
      have "list_all visited_ok (fst (dfs_loop_trace b word r c index visited' path ds))" by simp
      with l lg Inr fv False show ?thesis by (auto split: prod.splits)
    qed
  qed
qed

text \<open>The cells of the \<open>Access\<close> entries of a log, in order.\<close>

fun accessed :: "event list \<Rightarrow> (int \<times> int) list" where
  "accessed [] = []"
| "accessed (Access x # es) = x # accessed es"
| "accessed (Visited v p # es) = accessed es"

lemma accessed_append: "accessed (xs @ ys) = accessed xs @ accessed ys"
  by (induction xs rule: accessed.induct) simp_all

lemma dfs_trace_accessed:
  "\<forall>x \<in> set (accessed (fst (dfs_trace b word r c index visited path))). in_grid b x"
  and dfs_loop_trace_accessed:
    "\<forall>x \<in> set (accessed (fst (dfs_loop_trace b word r c index visited path ds))). in_grid b x"
proof (induction b word r c index visited path and b word r c index visited path ds
    rule: dfs_trace_dfs_loop_trace.induct)
  case (1 b word r c index visited path)
  show ?case
  proof (cases "index \<noteq> length word \<and> 0 \<le> r \<and> r < len_rows b \<and> 0 \<le> c \<and> c < len_cols b")
    case False
    then show ?thesis by (subst dfs_trace.simps) auto
  next
    case inb: True
    then have g: "in_grid b (r, c)" by (simp add: in_grid.simps)
    show ?thesis
    proof (cases "get_cell b r c")
      case (Inl e)
      with inb g show ?thesis by (subst dfs_trace.simps) simp
    next
      case ch: (Inr ch)
      show ?thesis
      proof (cases "py_get word (int index)")
        case (Inl e)
        with inb ch g show ?thesis by (subst dfs_trace.simps) simp
      next
        case w: (Inr w)
        show ?thesis
        proof (cases "ch = w \<and> (r, c) \<notin> visited")
          case False
          with inb ch w g show ?thesis by (subst dfs_trace.simps) auto
        next
          case True
          from inb True have "index \<noteq> length word"
            "\<not> \<not> (0 \<le> r \<and> r < len_rows b \<and> 0 \<le> c \<and> c < len_cols b)"
            "\<not> ch \<noteq> w" "(r, c) \<notin> visited" by simp_all
          note IH = "1.IH"[OF this(1,2) ch w this(3,4)]
          show ?thesis
            by (subst dfs_trace.simps)
               (use inb ch w True IH g in \<open>auto simp: accessed_append split: sum.splits prod.splits\<close>)
        qed
      qed
    qed
  qed
next
  case (2 b word r c index visited path)
  show ?case by simp
next
  case (3 b word r c index visited path dr dc ds)
  obtain lg res where l: "dfs_trace b word (r + dr) (c + dc) (index + 1) visited path = (lg, res)"
    by (cases "dfs_trace b word (r + dr) (c + dc) (index + 1) visited path")
  from "3.IH"(1) l have lg: "\<forall>x \<in> set (accessed lg). in_grid b x" by simp
  show ?case
  proof (cases res)
    case (Inl e)
    with l lg show ?thesis by simp
  next
    case (Inr fv)
    obtain found visited' where fv: "fv = (found, visited')" by (cases fv)
    show ?thesis
    proof (cases found)
      case True
      with l lg Inr fv show ?thesis by simp
    next
      case False
      from "3.IH"(2)[OF l[symmetric] Inr fv[symmetric] False] l lg Inr fv False
      show ?thesis by (auto simp: accessed_append split: prod.splits)
    qed
  qed
qed

text \<open>\<open>add_log l x\<close> puts the entries \<open>l\<close> before the log of \<open>x\<close>.\<close>

definition add_log :: "'e list \<Rightarrow> 'e list \<times> 'r \<Rightarrow> 'e list \<times> 'r" where
  "add_log l x = (l @ fst x, snd x)"

text \<open>The row of \<open>x\<close> is in \<open>[0, rws)\<close> and its column in \<open>[0, cls)\<close>.\<close>

definition in_bounds :: "int \<Rightarrow> int \<Rightarrow> int \<times> int \<Rightarrow> bool" where
  "in_bounds rws cls x = (0 \<le> fst x \<and> fst x < rws \<and> 0 \<le> snd x \<and> snd x < cls)"

text \<open>The flood fill with its log: \<open>actions\<close> logs the cells it reads, the loop of
  \<open>flood_fill_dfs\<close> the cells that \<open>result\<close> paints, \<open>flood_fill_dfs\<close> the read and the paint of
  the start cell.\<close>

fun FloodFillProblem_actions_loop_trace ::
  "'a FloodFillProblem \<Rightarrow> int \<times> int \<Rightarrow> (int \<times> int) list \<Rightarrow> (int \<times> int) list
     \<Rightarrow> (int \<times> int) list \<times> (py_error + (int \<times> int) list)" where
  "FloodFillProblem_actions_loop_trace p (r, c) [] neighbors = ([], Inr neighbors)"
| "FloodFillProblem_actions_loop_trace p (r, c) ((dr, dc) # ds) neighbors =
     (let nr = r + dr; nc = c + dc in
      if 0 \<le> nr \<and> nr < rows p \<and> 0 \<le> nc \<and> nc < cols p then
        (case get_cell (matrix p) nr nc of
           Inl e \<Rightarrow> ([(nr, nc)], Inl e)
         | Inr v \<Rightarrow>
             if v = target_color p
             then add_log [(nr, nc)]
                    (FloodFillProblem_actions_loop_trace p (r, c) ds (neighbors @ [(nr, nc)]))
             else add_log [(nr, nc)]
                    (FloodFillProblem_actions_loop_trace p (r, c) ds neighbors))
      else FloodFillProblem_actions_loop_trace p (r, c) ds neighbors)"

definition FloodFillProblem_actions_trace ::
  "'a FloodFillProblem \<Rightarrow> int \<times> int \<Rightarrow> (int \<times> int) list \<times> (py_error + (int \<times> int) list)" where
  "FloodFillProblem_actions_trace p state = FloodFillProblem_actions_loop_trace p state deltas4 []"

fun flood_fill_push_trace ::
  "'a FloodFillProblem \<Rightarrow> int \<times> int \<Rightarrow> (int \<times> int) list \<Rightarrow> (int \<times> int) list
     \<Rightarrow> (int \<times> int) list \<times> (py_error + ('a FloodFillProblem \<times> (int \<times> int) list))" where
  "flood_fill_push_trace p cur [] stack = ([], Inr (p, stack))"
| "flood_fill_push_trace p cur ((nr, nc) # ns) stack =
     (case FloodFillProblem_result p cur (nr, nc) of
        Inl e \<Rightarrow> ([(nr, nc)], Inl e)
      | Inr (p', a) \<Rightarrow> add_log [(nr, nc)] (flood_fill_push_trace p' cur ns ((nr, nc) # stack)))"

text \<open>The log of the first \<open>n\<close> iterations of the \<open>while\<close> loop, with the result when the loop
  ends within them.\<close>

fun flood_fill_while_trace ::
  "nat \<Rightarrow> 'a FloodFillProblem \<Rightarrow> (int \<times> int) list
     \<Rightarrow> (int \<times> int) list \<times> (py_error + 'a FloodFillProblem) option" where
  "flood_fill_while_trace 0 p stack = ([], None)"
| "flood_fill_while_trace (Suc n) p stack =
     (case stack of
        [] \<Rightarrow> ([], Some (Inr p))
      | (cr, cc) # rest \<Rightarrow>
          (case FloodFillProblem_actions_trace p (cr, cc) of
             (log, Inl e) \<Rightarrow> (log, Some (Inl e))
           | (log, Inr ns) \<Rightarrow>
               (case flood_fill_push_trace p (cr, cc) ns rest of
                  (log', Inl e) \<Rightarrow> (log @ log', Some (Inl e))
                | (log', Inr (p', stack')) \<Rightarrow>
                    add_log (log @ log') (flood_fill_while_trace n p' stack'))))"

definition flood_fill_dfs_trace ::
  "nat \<Rightarrow> 'a FloodFillProblem \<Rightarrow> (int \<times> int) list \<times> (py_error + 'a FloodFillProblem) option" where
  "flood_fill_dfs_trace n p =
     (case initial p of (r, c) \<Rightarrow>
        (case get_cell (matrix p) r c of
           Inl e \<Rightarrow> ([(r, c)], Some (Inl e))
         | Inr v \<Rightarrow>
             if v \<noteq> target_color p then ([(r, c)], Some (Inr p))
             else
               (case set_cell (matrix p) r c (replacement_color p) of
                  Inl e \<Rightarrow> ([(r, c), (r, c)], Some (Inl e))
                | Inr m' \<Rightarrow>
                    add_log [(r, c), (r, c)]
                      (flood_fill_while_trace n (p\<lparr>matrix := m'\<rparr>) [(r, c)]))))"


lemma snd_add_log [simp]: "snd (add_log l x) = snd x"
  by (simp add: add_log_def)

lemma fst_add_log [simp]: "fst (add_log l x) = l @ fst x"
  by (simp add: add_log_def)

lemma actions_loop_trace_result:
  "snd (FloodFillProblem_actions_loop_trace p x ds acc) = FloodFillProblem_actions_loop p x ds acc"
  by (induction p x ds acc rule: FloodFillProblem_actions_loop.induct)
     (auto simp: Let_def split: sum.splits)

lemma actions_trace_result:
  "snd (FloodFillProblem_actions_trace p x) = FloodFillProblem_actions p x"
  by (simp add: FloodFillProblem_actions_trace_def FloodFillProblem_actions_def
      actions_loop_trace_result)

lemma push_trace_result:
  "snd (flood_fill_push_trace p cur ns stack) = flood_fill_push p cur ns stack"
  by (induction p cur ns stack rule: flood_fill_push.induct) (auto split: sum.splits)

lemma while_trace_result:
  "snd (flood_fill_while_trace n p stack) = Some res \<Longrightarrow> flood_fill_while p stack = Some res"
proof (induction n arbitrary: p stack)
  case 0
  then show ?case by simp
next
  case (Suc n)
  show ?case
  proof (cases stack)
    case Nil
    with Suc.prems show ?thesis by (subst flood_fill_while.simps) simp
  next
    case (Cons x rest)
    obtain cr cc where x: "x = (cr, cc)" by (cases x)
    obtain lg ares where a: "FloodFillProblem_actions_trace p (cr, cc) = (lg, ares)"
      by (cases "FloodFillProblem_actions_trace p (cr, cc)")
    with actions_trace_result[of p "(cr, cc)"]
    have a': "FloodFillProblem_actions p (cr, cc) = ares" by simp
    show ?thesis
    proof (cases ares)
      case (Inl e)
      with Suc.prems Cons x a a' show ?thesis by (subst flood_fill_while.simps) simp
    next
      case (Inr ns)
      obtain lg' pres where ps: "flood_fill_push_trace p (cr, cc) ns rest = (lg', pres)"
        by (cases "flood_fill_push_trace p (cr, cc) ns rest")
      with push_trace_result[of p "(cr, cc)" ns rest]
      have ps': "flood_fill_push p (cr, cc) ns rest = pres" by simp
      show ?thesis
      proof (cases pres)
        case (Inl e)
        with Suc.prems Cons x a a' Inr ps ps' show ?thesis
          by (subst flood_fill_while.simps) simp
      next
        case r: (Inr ps2)
        obtain p' stack' where ps2: "ps2 = (p', stack')" by (cases ps2)
        from Suc.prems Cons x a Inr ps r ps2
        have "snd (flood_fill_while_trace n p' stack') = Some res" by simp
        from Suc.IH[OF this] Cons x a' Inr ps' r ps2 show ?thesis
          by (subst flood_fill_while.simps) simp
      qed
    qed
  qed
qed

lemma dfs_trace_fuel_result:
  "snd (flood_fill_dfs_trace n p) = Some res \<Longrightarrow> flood_fill_dfs p = Some res"
  by (auto simp: flood_fill_dfs_trace_def flood_fill_dfs_def
      split: prod.splits sum.splits if_splits dest: while_trace_result)


lemma actions_loop_trace_bounds:
  "\<forall>x \<in> set (fst (FloodFillProblem_actions_loop_trace p s ds acc)). in_bounds (rows p) (cols p) x"
  by (induction p s ds acc rule: FloodFillProblem_actions_loop_trace.induct)
     (auto simp: Let_def in_bounds_def split: sum.splits)

lemma actions_loop_neighbors_bounds:
  "FloodFillProblem_actions_loop p s ds acc = Inr ns \<Longrightarrow>
     \<forall>x \<in> set acc. in_bounds (rows p) (cols p) x \<Longrightarrow>
     \<forall>x \<in> set ns. in_bounds (rows p) (cols p) x"
  by (induction p s ds acc rule: FloodFillProblem_actions_loop.induct)
     (auto simp: Let_def in_bounds_def split: sum.splits if_splits)

lemma push_trace_bounds:
  "\<forall>x \<in> set ns. in_bounds (rows p) (cols p) x \<Longrightarrow>
     (\<forall>x \<in> set (fst (flood_fill_push_trace p cur ns stack)). in_bounds (rows p) (cols p) x)
     \<and> (\<forall>p' stack'. snd (flood_fill_push_trace p cur ns stack) = Inr (p', stack') \<longrightarrow>
           rows p' = rows p \<and> cols p' = cols p)"
proof (induction p cur ns stack rule: flood_fill_push_trace.induct)
  case (1 p cur stack)
  then show ?case by simp
next
  case (2 p cur nr nc ns stack)
  show ?case
  proof (cases "FloodFillProblem_result p cur (nr, nc)")
    case (Inl e)
    with "2.prems" show ?thesis by simp
  next
    case (Inr pa)
    obtain p' a where pa: "pa = (p', a)" by (cases pa)
    from Inr pa have rc: "rows p' = rows p" "cols p' = cols p"
      by (auto simp: FloodFillProblem_result_def split: sum.splits)
    from "2.IH"[OF Inr pa[symmetric]] "2.prems" rc Inr pa show ?thesis by simp
  qed
qed

lemma while_trace_bounds:
  "\<forall>x \<in> set (fst (flood_fill_while_trace n p stack)). in_bounds (rows p) (cols p) x"
proof (induction n arbitrary: p stack)
  case 0
  show ?case by simp
next
  case (Suc n)
  show ?case
  proof (cases stack)
    case Nil
    then show ?thesis by simp
  next
    case (Cons x rest)
    obtain cr cc where x: "x = (cr, cc)" by (cases x)
    obtain lg ares where a: "FloodFillProblem_actions_trace p (cr, cc) = (lg, ares)"
      by (cases "FloodFillProblem_actions_trace p (cr, cc)")
    with actions_trace_result[of p "(cr, cc)"]
    have a': "FloodFillProblem_actions p (cr, cc) = ares" by simp
    from actions_loop_trace_bounds[of p "(cr, cc)" deltas4 "[]"] a
    have lg: "\<forall>x \<in> set lg. in_bounds (rows p) (cols p) x"
      by (simp add: FloodFillProblem_actions_trace_def)
    show ?thesis
    proof (cases ares)
      case (Inl e)
      with Cons x a lg show ?thesis by simp
    next
      case (Inr ns)
      with a' actions_loop_neighbors_bounds[of p "(cr, cc)" deltas4 "[]" ns]
      have ns: "\<forall>x \<in> set ns. in_bounds (rows p) (cols p) x"
        by (simp add: FloodFillProblem_actions_def)
      obtain lg' pres where ps: "flood_fill_push_trace p (cr, cc) ns rest = (lg', pres)"
        by (cases "flood_fill_push_trace p (cr, cc) ns rest")
      from push_trace_bounds[OF ns, of "(cr, cc)" rest] ps
      have lg': "\<forall>x \<in> set lg'. in_bounds (rows p) (cols p) x"
        and nxt: "\<And>p' stack'. pres = Inr (p', stack') \<Longrightarrow>
           rows p' = rows p \<and> cols p' = cols p"
        by simp_all
      show ?thesis
      proof (cases pres)
        case (Inl e)
        with Cons x a Inr ps lg lg' show ?thesis by auto
      next
        case r: (Inr ps2)
        obtain p' stack' where ps2: "ps2 = (p', stack')" by (cases ps2)
        from nxt[of p' stack'] r ps2 have rc: "rows p' = rows p" "cols p' = cols p"
          by simp_all
        from Suc.IH[of p' stack'] rc
        have "\<forall>x \<in> set (fst (flood_fill_while_trace n p' stack')). in_bounds (rows p) (cols p) x"
          by simp
        with Cons x a Inr ps r ps2 lg lg' show ?thesis by auto
      qed
    qed
  qed
qed

lemma flood_fill_dfs_trace_bounds:
  "\<forall>x \<in> set (fst (flood_fill_dfs_trace n p)). x = initial p \<or> in_bounds (rows p) (cols p) x"
proof -
  obtain r c where rc: "initial p = (r, c)" by (cases "initial p")
  have "\<forall>x \<in> set (fst (flood_fill_while_trace n (p\<lparr>matrix := m'\<rparr>) [(r, c)])).
          in_bounds (rows p) (cols p) x" for m'
    using while_trace_bounds[of n "p\<lparr>matrix := m'\<rparr>" "[(r, c)]"] by simp
  then show ?thesis
    by (auto simp: flood_fill_dfs_trace_def rc split: sum.splits)
qed

text \<open>The longest-path search with its log: \<open>actions\<close> logs the read of the cell of its
  state and the reads of the neighbours.\<close>

fun LongestConsecutivePathProblem_actions_loop_trace ::
  "LongestConsecutivePathProblem \<Rightarrow> int \<times> int \<Rightarrow> nat \<Rightarrow> (int \<times> int) list \<Rightarrow> (int \<times> int) list
     \<Rightarrow> (int \<times> int) list \<times> (py_error + (int \<times> int) list)" where
  "LongestConsecutivePathProblem_actions_loop_trace p (r, c) next_char [] neighbors =
     ([], Inr neighbors)"
| "LongestConsecutivePathProblem_actions_loop_trace p (r, c) next_char ((dr, dc) # ds) neighbors =
     (let nr = r + dr; nc = c + dc in
      if 0 \<le> nr \<and> nr < char_rows p \<and> 0 \<le> nc \<and> nc < char_cols p then
        (case get_cell (char_matrix p) nr nc of
           Inl e \<Rightarrow> ([(nr, nc)], Inl e)
         | Inr v \<Rightarrow>
             if v = next_char
             then add_log [(nr, nc)]
                    (LongestConsecutivePathProblem_actions_loop_trace p (r, c) next_char ds
                       (neighbors @ [(nr, nc)]))
             else add_log [(nr, nc)]
                    (LongestConsecutivePathProblem_actions_loop_trace p (r, c) next_char ds
                       neighbors))
      else LongestConsecutivePathProblem_actions_loop_trace p (r, c) next_char ds neighbors)"

definition LongestConsecutivePathProblem_actions_trace ::
  "LongestConsecutivePathProblem \<Rightarrow> int \<times> int
     \<Rightarrow> (int \<times> int) list \<times> (py_error + (int \<times> int) list)" where
  "LongestConsecutivePathProblem_actions_trace p state =
     (case state of (r, c) \<Rightarrow>
        (case get_cell (char_matrix p) r c of
           Inl e \<Rightarrow> ([(r, c)], Inl e)
         | Inr curr_char \<Rightarrow>
             (case py_chr (py_ord curr_char + 1) of
                Inl e \<Rightarrow> ([(r, c)], Inl e)
              | Inr next_char \<Rightarrow>
                  add_log [(r, c)]
                    (LongestConsecutivePathProblem_actions_loop_trace p (r, c) next_char
                       deltas8 []))))"

lemma char_actions_loop_trace_result:
  "snd (LongestConsecutivePathProblem_actions_loop_trace p x next_char ds acc)
     = LongestConsecutivePathProblem_actions_loop p x next_char ds acc"
  by (induction p x next_char ds acc rule: LongestConsecutivePathProblem_actions_loop.induct)
     (auto simp: Let_def split: sum.splits)

lemma char_actions_trace_result:
  "snd (LongestConsecutivePathProblem_actions_trace p x) = LongestConsecutivePathProblem_actions p x"
  by (cases x)
     (auto simp: LongestConsecutivePathProblem_actions_trace_def
        LongestConsecutivePathProblem_actions_def char_actions_loop_trace_result
        split: sum.splits)

function dfs_longest_trace ::
  "LongestConsecutivePathProblem \<Rightarrow> int \<Rightarrow> int \<Rightarrow> (int \<times> int) list \<times> (py_error + int)"
and dfs_longest_loop_trace ::
  "LongestConsecutivePathProblem \<Rightarrow> (int \<times> int) list \<Rightarrow> int
     \<Rightarrow> (int \<times> int) list \<times> (py_error + int)" where
  "dfs_longest_trace p r c =
     (case LongestConsecutivePathProblem_actions_trace p (r, c) of
        (log, Inl e) \<Rightarrow> (log, Inl e)
      | (log, Inr children) \<Rightarrow> add_log log (dfs_longest_loop_trace p children 1))"
| "dfs_longest_loop_trace p [] best_len = ([], Inr best_len)"
| "dfs_longest_loop_trace p ((nr, nc) # children) best_len =
     (case dfs_longest_trace p nr nc of
        (log, Inl e) \<Rightarrow> (log, Inl e)
      | (log, Inr n) \<Rightarrow>
          (let length_child = 1 + n in
           add_log log
             (dfs_longest_loop_trace p children
                (if length_child > best_len then length_child else best_len))))"
  by pat_completeness auto
termination
  apply (relation "inv_image (less_than <*lex*> less_than)
    (\<lambda>x. case x of
       Inl (p, r, c) \<Rightarrow> (2 * succ_height (char_matrix p) (r, c) + 1, 0)
     | Inr (p, children, best_len) \<Rightarrow>
         (2 * max_height (char_matrix p) children + 2, length children))")
  subgoal by auto
  subgoal premises prems for p r c lg res children
  proof -
    from prems have "LongestConsecutivePathProblem_actions_trace p (r, c) = (lg, Inr children)"
      by simp
    with char_actions_trace_result[of p "(r, c)"]
    have "LongestConsecutivePathProblem_actions p (r, c) = Inr children" by simp
    from char_actions_height[OF this] show ?thesis by simp
  qed
  subgoal by (simp add: max_def)
  subgoal by (auto simp: max_def)
  done

declare dfs_longest_trace.simps [simp del]


lemma dfs_longest_trace_result:
  "snd (dfs_longest_trace p r c) = dfs_longest p r c"
  and dfs_longest_loop_trace_result:
  "snd (dfs_longest_loop_trace p children best_len) = dfs_longest_loop p children best_len"
proof (induction p r c and p children best_len rule: dfs_longest_trace_dfs_longest_loop_trace.induct)
  case (1 p r c)
  obtain lg res where a: "LongestConsecutivePathProblem_actions_trace p (r, c) = (lg, res)"
    by (cases "LongestConsecutivePathProblem_actions_trace p (r, c)")
  with char_actions_trace_result[of p "(r, c)"]
  have a': "LongestConsecutivePathProblem_actions p (r, c) = res" by simp
  show ?case
  proof (cases res)
    case (Inl e)
    with a a' show ?thesis by (subst dfs_longest_trace.simps, subst dfs_longest.simps) simp
  next
    case (Inr children)
    from "1.IH"[OF a[symmetric] Inr] a a' Inr show ?thesis
      by (subst dfs_longest_trace.simps, subst dfs_longest.simps) simp
  qed
next
  case (2 p best_len)
  show ?case by simp
next
  case (3 p nr nc children best_len)
  obtain lg res where d: "dfs_longest_trace p nr nc = (lg, res)"
    by (cases "dfs_longest_trace p nr nc")
  with "3.IH"(1) have d': "dfs_longest p nr nc = res" by simp
  show ?case
  proof (cases res)
    case (Inl e)
    with d d' show ?thesis by simp
  next
    case (Inr n)
    from "3.IH"(2)[OF d[symmetric] Inr refl] d d' Inr show ?thesis by (simp add: Let_def)
  qed
qed

lemma char_actions_loop_trace_bounds:
  "\<forall>x \<in> set (fst (LongestConsecutivePathProblem_actions_loop_trace p s next_char ds acc)).
     in_bounds (char_rows p) (char_cols p) x"
  by (induction p s next_char ds acc
      rule: LongestConsecutivePathProblem_actions_loop_trace.induct)
     (auto simp: Let_def in_bounds_def split: sum.splits)

lemma char_actions_trace_bounds:
  "\<forall>x \<in> set (fst (LongestConsecutivePathProblem_actions_trace p (r, c))).
     x = (r, c) \<or> in_bounds (char_rows p) (char_cols p) x"
  using char_actions_loop_trace_bounds[of p "(r, c)"]
  by (auto simp: LongestConsecutivePathProblem_actions_trace_def split: sum.splits)

lemma dfs_longest_trace_bounds:
  "\<forall>x \<in> set (fst (dfs_longest_trace p r c)).
     x = (r, c) \<or> in_bounds (char_rows p) (char_cols p) x"
  and dfs_longest_loop_trace_bounds:
  "\<forall>y \<in> set children. in_bounds (char_rows p) (char_cols p) y \<Longrightarrow>
     \<forall>x \<in> set (fst (dfs_longest_loop_trace p children best_len)).
       in_bounds (char_rows p) (char_cols p) x"
proof (induction p r c and p children best_len rule: dfs_longest_trace_dfs_longest_loop_trace.induct)
  case (1 p r c)
  obtain lg res where a: "LongestConsecutivePathProblem_actions_trace p (r, c) = (lg, res)"
    by (cases "LongestConsecutivePathProblem_actions_trace p (r, c)")
  with char_actions_trace_result[of p "(r, c)"]
  have a': "LongestConsecutivePathProblem_actions p (r, c) = res" by simp
  from char_actions_trace_bounds[of p r c] a
  have lg: "\<forall>x \<in> set lg. x = (r, c) \<or> in_bounds (char_rows p) (char_cols p) x" by simp
  show ?case
  proof (cases res)
    case (Inl e)
    with a lg show ?thesis by (subst dfs_longest_trace.simps) simp
  next
    case (Inr children)
    with a' char_actions_children[of p r c children]
    have "\<forall>y \<in> set children. in_bounds (char_rows p) (char_cols p) y"
      by (auto simp: in_bounds_def)
    from "1.IH"[OF a[symmetric] Inr this] a Inr lg show ?thesis
      by (subst dfs_longest_trace.simps) auto
  qed
next
  case (2 p best_len)
  show ?case by simp
next
  case (3 p nr nc children best_len)
  obtain lg res where d: "dfs_longest_trace p nr nc = (lg, res)"
    by (cases "dfs_longest_trace p nr nc")
  from "3.prems" have inb: "in_bounds (char_rows p) (char_cols p) (nr, nc)"
    and rest: "\<forall>y \<in> set children. in_bounds (char_rows p) (char_cols p) y" by simp_all
  from "3.IH"(1) d inb have lg: "\<forall>x \<in> set lg. in_bounds (char_rows p) (char_cols p) x" by auto
  show ?case
  proof (cases res)
    case (Inl e)
    with d lg show ?thesis by simp
  next
    case (Inr n)
    from "3.IH"(2)[OF d[symmetric] Inr refl rest] d Inr lg show ?thesis
      by (auto simp: Let_def)
  qed
qed

section \<open>Word search: the visited set is the committed path\<close>

text \<open>
  Claim C9. \<open>dfs_trace\<close> is \<open>dfs\<close> with two additions that do not change what it computes:
  the argument \<open>path\<close>, which is the list of the cells of the calls that are still active
  and have marked their cell (it is passed down by value, like the call stack, and is never
  returned), and a log. The log has a \<open>Visited\<close> entry with the set and the path at every
  entry of \<open>dfs\<close>, after every \<open>visited.add\<close> and after every \<open>visited.remove\<close>. In an attempt
  that starts at any cell with the empty set, the set is at each of these points exactly
  the set of the cells of the path, each of them once; and an attempt that fails leaves the
  set empty.
\<close>

theorem visited_is_committed_path:
  "list_all visited_ok (fst (dfs_trace b word r c 0 {} []))
   \<and> snd (dfs_trace b word r c 0 {} []) = dfs b word r c 0 {}
   \<and> (\<forall>v. dfs b word r c 0 {} = Inr (False, v) \<longrightarrow> v = {})"
proof (intro conjI allI impI)
  show "list_all visited_ok (fst (dfs_trace b word r c 0 {} []))"
    by (rule dfs_trace_visited) simp_all
  show "snd (dfs_trace b word r c 0 {} []) = dfs b word r c 0 {}"
    by (rule dfs_trace_result)
next
  fix v
  assume "dfs b word r c 0 {} = Inr (False, v)"
  with dfs_restores[where b = b and word = word and r = r and c = c and index = 0
      and visited = "{}"]
  show "v = {}" by simp
qed

text \<open>The word \<open>"CAC"\<close> on the board \<open>[["C", "A"]]\<close>: the search commits \<open>(0, 0)\<close> and
  \<open>(0, 1)\<close>, finds no second \<open>"C"\<close>, and backtracks to the empty set.\<close>

theorem visited_is_committed_path_witness:
  "list_all visited_ok (fst (dfs_trace [[CHR ''C'', CHR ''A'']] ''CAC'' 0 0 0 {} []))
   \<and> Visited {(0, 0), (0, 1)} [(0, 0), (0, 1)]
        \<in> set (fst (dfs_trace [[CHR ''C'', CHR ''A'']] ''CAC'' 0 0 0 {} []))
   \<and> snd (dfs_trace [[CHR ''C'', CHR ''A'']] ''CAC'' 0 0 0 {} []) = Inr (False, {})
   \<and> dfs [[CHR ''C'', CHR ''A'']] ''CAC'' 0 0 0 {} = Inr (False, {})"
proof -
  have m: "Visited {(0, 0), (0, 1)} [(0, 0), (0, 1)]
        \<in> set (fst (dfs_trace [[CHR ''C'', CHR ''A'']] ''CAC'' 0 0 0 {} []))"
    by code_simp
  have d: "dfs [[CHR ''C'', CHR ''A'']] ''CAC'' 0 0 0 {} = Inr (False, {})"
    by code_simp
  from visited_is_committed_path[of "[[CHR ''C'', CHR ''A'']]" "''CAC''" 0 0] m d
  show ?thesis by simp
qed

section \<open>Bounds of the accesses to the grid\<close>

text \<open>
  Claim C4, as the code has it. The functions \<open>flood_fill_dfs_trace\<close>, \<open>dfs_longest_trace\<close>
  and \<open>dfs_trace\<close> are the three traversals with a log of the cells they read or write;
  they compute what the traversals compute. Every access of the word search is within
  \<open>[0, rows) \<times> [0, cols)\<close>, for any coordinates. Every access of the flood fill and of
  the longest-path search is within these bounds too, except the accesses to the
  coordinate the caller passed: \<open>flood_fill_dfs\<close> reads and paints \<open>problem.initial\<close>, and
  \<open>actions\<close> reads the cell of its state, without a check. (The flood fill is logged for any
  number \<open>n\<close> of iterations of its loop, which need not end.)
\<close>

theorem accesses_within_bounds:
  "(\<forall>x \<in> set (fst (flood_fill_dfs_trace n p)). x = initial p \<or> in_bounds (rows p) (cols p) x)
   \<and> (\<forall>res. snd (flood_fill_dfs_trace n p) = Some res \<longrightarrow> flood_fill_dfs p = Some res)
   \<and> (\<forall>x \<in> set (fst (dfs_longest_trace q r c)).
         x = (r, c) \<or> in_bounds (char_rows q) (char_cols q) x)
   \<and> snd (dfs_longest_trace q r c) = dfs_longest q r c
   \<and> (\<forall>x \<in> set (accessed (fst (dfs_trace b word r' c' index visited path))).
         in_bounds (len_rows b) (len_cols b) x)
   \<and> snd (dfs_trace b word r' c' index visited path) = dfs b word r' c' index visited"
proof (intro conjI)
  show "\<forall>x \<in> set (fst (flood_fill_dfs_trace n p)). x = initial p \<or> in_bounds (rows p) (cols p) x"
    by (rule flood_fill_dfs_trace_bounds)
  show "\<forall>res. snd (flood_fill_dfs_trace n p) = Some res \<longrightarrow> flood_fill_dfs p = Some res"
    using dfs_trace_fuel_result by blast
  show "\<forall>x \<in> set (fst (dfs_longest_trace q r c)).
         x = (r, c) \<or> in_bounds (char_rows q) (char_cols q) x"
    by (rule dfs_longest_trace_bounds)
  show "snd (dfs_longest_trace q r c) = dfs_longest q r c"
    by (rule dfs_longest_trace_result)
  show "\<forall>x \<in> set (accessed (fst (dfs_trace b word r' c' index visited path))).
         in_bounds (len_rows b) (len_cols b) x"
    using dfs_trace_accessed[of b word r' c' index visited path]
    by (auto simp: in_bounds_def in_grid.simps)
  show "snd (dfs_trace b word r' c' index visited path) = dfs b word r' c' index visited"
    by (rule dfs_trace_result)
qed

text \<open>The flood fill of \<open>[["X", "Y"], ["X", "X"]]\<close> from \<open>(0, 0)\<close>, and the search of
  \<open>"CAC"\<close> on \<open>[["C", "A"]]\<close> started outside the board, at \<open>(5, 5)\<close>.\<close>

theorem accesses_within_bounds_witness:
  "fst (flood_fill_dfs_trace 10
         (FloodFillProblem_init [[''X'', ''Y''], [''X'', ''X'']] (0, 0) ''X'' ''C''))
     = [(0, 0), (0, 0), (0, 1), (1, 0), (1, 0), (1, 1), (0, 0), (1, 1), (1, 0), (0, 1)]
   \<and> list_all
        (\<lambda>x. x = initial (FloodFillProblem_init [[''X'', ''Y''], [''X'', ''X'']] (0, 0) ''X'' ''C'')
           \<or> in_bounds
                (rows (FloodFillProblem_init [[''X'', ''Y''], [''X'', ''X'']] (0, 0) ''X'' ''C''))
                (cols (FloodFillProblem_init [[''X'', ''Y''], [''X'', ''X'']] (0, 0) ''X'' ''C''))
                x)
        (fst (flood_fill_dfs_trace 10
               (FloodFillProblem_init [[''X'', ''Y''], [''X'', ''X'']] (0, 0) ''X'' ''C'')))
   \<and> accessed (fst (dfs_trace [[CHR ''C'', CHR ''A'']] ''CAC'' 5 5 0 {} [])) = []
   \<and> accessed (fst (dfs_trace [[CHR ''C'', CHR ''A'']] ''CAC'' 0 0 0 {} []))
       = [(0, 0), (0, 1), (0, 0)]"
proof -
  let ?p = "FloodFillProblem_init [[''X'', ''Y''], [''X'', ''X'']] (0, 0) ''X'' ''C''"
  have f: "fst (flood_fill_dfs_trace 10 ?p)
     = [(0, 0), (0, 0), (0, 1), (1, 0), (1, 0), (1, 1), (0, 0), (1, 1), (1, 0), (0, 1)]"
    by code_simp
  have a1: "accessed (fst (dfs_trace [[CHR ''C'', CHR ''A'']] ''CAC'' 5 5 0 {} [])) = []"
    by code_simp
  have a2: "accessed (fst (dfs_trace [[CHR ''C'', CHR ''A'']] ''CAC'' 0 0 0 {} []))
       = [(0, 0), (0, 1), (0, 0)]"
    by code_simp
  from accesses_within_bounds[of 10 ?p]
  have "\<forall>x \<in> set (fst (flood_fill_dfs_trace 10 ?p)).
          x = initial ?p \<or> in_bounds (rows ?p) (cols ?p) x"
    by blast
  then have "list_all (\<lambda>x. x = initial ?p \<or> in_bounds (rows ?p) (cols ?p) x)
      (fst (flood_fill_dfs_trace 10 ?p))"
    by (simp only: list_all_iff)
  with f a1 a2 show ?thesis by blast
qed

text \<open>
  The claim as written says "for any input coordinates". Started at \<open>(-1, -1)\<close> on the
  grid \<open>[["X"]]\<close>, \<open>flood_fill_dfs\<close> reads and paints \<open>matrix[-1][-1]\<close>: the row index \<open>-1\<close> is
  outside \<open>[0, 1)\<close>, and Python takes it for the last row, so the call paints the cell and
  returns.
\<close>

theorem accesses_within_bounds_counterexample:
  "(-1, -1) \<in> set (fst (flood_fill_dfs_trace 1 (FloodFillProblem_init [[''X'']] (-1, -1) ''X'' ''C'')))
   \<and> \<not> in_bounds (rows (FloodFillProblem_init [[''X'']] (-1, -1) ''X'' ''C''))
          (cols (FloodFillProblem_init [[''X'']] (-1, -1) ''X'' ''C'')) (-1, -1)
   \<and> flood_fill_dfs (FloodFillProblem_init [[''X'']] (-1, -1) ''X'' ''C'')
       = Some (Inr ((FloodFillProblem_init [[''X'']] (-1, -1) ''X'' ''C'')
                      \<lparr>matrix := [[''C'']]\<rparr>))"
  by code_simp

end
